theory Spec2Isabelle
  imports Main "HOL-Library.Word" "HOL-Library.Monad_Syntax" "HOL-Library.Sublist"
begin

section \<open>The command builder and its slice pool (internal/cmds/builder.go)\<close>

text \<open>
  A \<^verbatim>\<open>*CommandSlice\<close> is an address into an explicit heap, the list of the objects
  allocated so far; an address beyond it stands for \<^verbatim>\<open>nil\<close>, and dereferencing it
  is the panic \<open>None\<close>. A Go slice is modelled by its contents (the elements below its
  length); its capacity and backing array are not observable by the builder and are left
  out. The \<^verbatim>\<open>sync.Pool\<close> is the list of pooled addresses.
\<close>

type_synonym addr = nat

record CommandSlice =
  s :: "string list"

record memory =
  heap :: "CommandSlice list"
  pool :: "addr list"

definition init_memory :: memory where
  "init_memory = \<lparr>heap = [], pool = []\<rparr>"

definition deref :: "memory \<Rightarrow> addr \<Rightarrow> CommandSlice option" where
  "deref m a = (if a < length (heap m) then Some (heap m ! a) else None)"

text \<open>\<^verbatim>\<open>newCommandSlice\<close>: \<^verbatim>\<open>&CommandSlice{s: make([]string, 0, 2)}\<close>, a fresh object.\<close>

definition newCommandSlice :: "memory \<Rightarrow> addr \<times> memory" where
  "newCommandSlice m = (length (heap m), m\<lparr>heap := heap m @ [\<lparr>s = []\<rparr>]\<rparr>)"

record Builder =
  ks :: "16 word"

definition NewBuilder :: "16 word \<Rightarrow> Builder" where
  "NewBuilder initSlot = \<lparr>ks = initSlot\<rparr>"

text \<open>
  \<^verbatim>\<open>get\<close>: \<^verbatim>\<open>pool.Get().(*CommandSlice)\<close>. \<^verbatim>\<open>sync.Pool.Get\<close> removes and returns an
  arbitrary pooled item, or ignores the pool and calls \<^verbatim>\<open>New\<close>; the choice is the
  argument \<open>pick\<close>: \<open>Some i\<close> takes the \<open>i\<close>-th pooled item when there is one, anything
  else calls \<^verbatim>\<open>newCommandSlice\<close>.
\<close>

definition get :: "nat option \<Rightarrow> memory \<Rightarrow> addr \<times> memory" where
  "get pick m =
     (case pick of
        None \<Rightarrow> newCommandSlice m
      | Some i \<Rightarrow>
          if i < length (pool m)
          then (pool m ! i, m\<lparr>pool := take i (pool m) @ drop (Suc i) (pool m)\<rparr>)
          else newCommandSlice m)"

text \<open>\<^verbatim>\<open>Put\<close>: \<^verbatim>\<open>cs.s = cs.s[:0]; pool.Put(cs)\<close>.\<close>

definition Put :: "addr \<Rightarrow> memory \<Rightarrow> memory option" where
  "Put a m =
     (case deref m a of
        None \<Rightarrow> None
      | Some c \<Rightarrow> Some (m\<lparr>heap := (heap m)[a := c\<lparr>s := take 0 (s c)\<rparr>], pool := a # pool m\<rparr>))"

text \<open>
  \<^verbatim>\<open>Completed\<close> is declared outside builder.go; its fields are the ones builder.go
  reads and writes: the slice pointer \<^verbatim>\<open>cs\<close>, the flags \<^verbatim>\<open>cf\<close> (of a type with a zero
  value) and the key slot \<^verbatim>\<open>ks\<close>. \<^verbatim>\<open>type Arbitrary Completed\<close>.
\<close>

record 'f Completed =
  cs :: addr
  cf :: 'f
  ks :: "16 word"

type_synonym 'f Arbitrary = "'f Completed"

text \<open>
  The constant \<^verbatim>\<open>NoSlot\<close> and the functions \<^verbatim>\<open>check\<close> and \<^verbatim>\<open>slot\<close> are used by
  \<^verbatim>\<open>Keys\<close> and declared outside builder.go: they are parameters, with the types
  their uses give them (\<^verbatim>\<open>c.ks = check(c.ks, slot(k))\<close> with \<^verbatim>\<open>c.ks\<close> a \<^verbatim>\<open>uint16\<close>), so
  as functions that return.
\<close>

record slot_decls =
  NoSlot :: "16 word"
  check :: "16 word \<Rightarrow> 16 word \<Rightarrow> 16 word"
  slot :: "string \<Rightarrow> 16 word"

text \<open>The statement \<^verbatim>\<open>c.cs.s = append(c.cs.s, xs...)\<close>.\<close>

definition append_s :: "addr \<Rightarrow> string list \<Rightarrow> memory \<Rightarrow> memory option" where
  "append_s a xs m =
     (case deref m a of
        None \<Rightarrow> None
      | Some c \<Rightarrow> Some (m\<lparr>heap := (heap m)[a := c\<lparr>s := s c @ xs\<rparr>]\<rparr>))"

definition Arbitrary ::
  "Builder \<Rightarrow> nat option \<Rightarrow> string list \<Rightarrow> memory \<Rightarrow> (('f::zero) Arbitrary \<times> memory) option" where
  "Arbitrary b pick token m =
     (let (a, m1) = get pick m;
          c = \<lparr>cs = a, cf = 0, ks = Builder.ks b\<rparr>
      in do { m2 \<leftarrow> append_s (cs c) token m1; Some (c, m2) })"

definition Keys ::
  "slot_decls \<Rightarrow> 'f Arbitrary \<Rightarrow> string list \<Rightarrow> memory \<Rightarrow> ('f Arbitrary \<times> memory) option" where
  "Keys d c keys m =
     (let c1 = (if Completed.ks c \<noteq> NoSlot d
                then c\<lparr>ks := foldl (\<lambda>acc k. check d acc (slot d k)) (Completed.ks c) keys\<rparr>
                else c)
      in do { m1 \<leftarrow> append_s (cs c1) keys m; Some (c1, m1) })"

definition Args ::
  "'f Arbitrary \<Rightarrow> string list \<Rightarrow> memory \<Rightarrow> ('f Arbitrary \<times> memory) option" where
  "Args c args m = do { m1 \<leftarrow> append_s (cs c) args m; Some (c, m1) }"

definition Build :: "'f Arbitrary \<Rightarrow> 'f Completed" where
  "Build c = c"

definition Blocking :: "'f \<Rightarrow> 'f Arbitrary \<Rightarrow> 'f Completed" where
  "Blocking blockTag c = c\<lparr>cf := blockTag\<rparr>"

definition ReadOnly :: "'f \<Rightarrow> 'f Arbitrary \<Rightarrow> 'f Completed" where
  "ReadOnly readonly c = c\<lparr>cf := readonly\<rparr>"

text \<open>The token list a command holds: the contents of \<^verbatim>\<open>c.cs.s\<close>.\<close>

definition Commands :: "'f Completed \<Rightarrow> memory \<Rightarrow> string list option" where
  "Commands c m = map_option s (deref m (cs c))"

text \<open>
  The chain \<^verbatim>\<open>b.Arbitrary(t...).Keys(k...).Args(a...).Build()\<close>, returning the
  command and the memory after it.
\<close>

definition build_chain ::
  "slot_decls \<Rightarrow> Builder \<Rightarrow> nat option \<Rightarrow> string list \<Rightarrow> string list \<Rightarrow> string list \<Rightarrow>
     memory \<Rightarrow> (('f::zero) Completed \<times> memory) option" where
  "build_chain d b pick t k a m =
     do { (c1, m1) \<leftarrow> Arbitrary b pick t m;
          (c2, m2) \<leftarrow> Keys d c1 k m1;
          (c3, m3) \<leftarrow> Args c2 a m2;
          Some (Build c3, m3) }"

text \<open>
  Two properties of a memory: every pooled address is allocated; and, stronger, pooled
  slices are allocated, empty and pooled once.
\<close>

definition pool_alloc :: "memory \<Rightarrow> bool" where
  "pool_alloc m \<longleftrightarrow> (\<forall>a \<in> set (pool m). a < length (heap m))"

definition pool_inv :: "memory \<Rightarrow> bool" where
  "pool_inv m \<longleftrightarrow>
     (\<forall>a \<in> set (pool m). deref m a = Some \<lparr>s = []\<rparr>) \<and> distinct (pool m)"

text \<open>
  Client programs over the builder: a sequence of calls of its exported functions.
  \<open>run\<close> executes them one after the other, as builder.go does whatever the commands
  they are applied to; it is \<open>None\<close> only when a call dereferences \<^verbatim>\<open>nil\<close>.
\<close>

datatype 'f call =
    Call_Arbitrary Builder "nat option" "string list"
  | Call_Keys "'f Arbitrary" "string list"
  | Call_Args "'f Arbitrary" "string list"
  | Call_Put addr

fun exec_call :: "slot_decls \<Rightarrow> ('f::zero) call \<Rightarrow> memory \<Rightarrow> memory option" where
  "exec_call d (Call_Arbitrary b pick t) m =
     map_option snd (Arbitrary b pick t m :: ('f Arbitrary \<times> memory) option)"
| "exec_call d (Call_Keys c k) m = map_option snd (Keys d c k m)"
| "exec_call d (Call_Args c a) m = map_option snd (Args c a m)"
| "exec_call d (Call_Put a) m = Put a m"

fun run :: "slot_decls \<Rightarrow> ('f::zero) call list \<Rightarrow> memory \<Rightarrow> memory option" where
  "run d [] m = Some m"
| "run d (x # xs) m = (case exec_call d x m of None \<Rightarrow> None | Some m1 \<Rightarrow> run d xs m1)"

text \<open>
  A property of client programs, not of builder.go: a call is \<open>owned\<close> when the slice it
  writes or recycles is not in the pool at that moment, and a program is \<open>disciplined\<close>
  from a memory when each of its calls is owned when it runs, that is, when the client
  never applies \<^verbatim>\<open>Keys\<close>, \<^verbatim>\<open>Args\<close> or \<^verbatim>\<open>Put\<close> to a command it has already recycled.
\<close>

fun owned :: "'f call \<Rightarrow> memory \<Rightarrow> bool" where
  "owned (Call_Arbitrary b pick t) m = True"
| "owned (Call_Keys c k) m = (cs c \<notin> set (pool m))"
| "owned (Call_Args c a) m = (cs c \<notin> set (pool m))"
| "owned (Call_Put a) m = (a \<notin> set (pool m))"

fun disciplined :: "slot_decls \<Rightarrow> ('f::zero) call list \<Rightarrow> memory \<Rightarrow> bool" where
  "disciplined d [] m = True"
| "disciplined d (x # xs) m =
     (owned x m \<and> (case exec_call d x m of None \<Rightarrow> True | Some m1 \<Rightarrow> disciplined d xs m1))"

section \<open>The dedicated client's DoMulti\<close>

text \<open>
  \<^verbatim>\<open>DedicatedSingleClient\<close> has the fields \<^verbatim>\<open>cmd\<close> (the builder) and \<^verbatim>\<open>wire\<close>. Their types
  are declared outside the file, so each field is modelled by the one operation that
  \<^verbatim>\<open>DoMulti\<close> calls on it, acting on the state \<open>st\<close> of wire and pool: \<open>wire c\<close> is
  \<^verbatim>\<open>c.wire.DoMulti\<close>, and \<open>cmd c x\<close> is \<^verbatim>\<open>c.cmd.Put(x.Commands())\<close>. A Go slice result is
  \<open>None\<close> for \<^verbatim>\<open>nil\<close>.
\<close>

record ('c, 'w, 'r) DedicatedSingleClient =
  cmd :: "'c \<Rightarrow> 'w \<Rightarrow> 'w"
  wire :: "'c list \<Rightarrow> 'w \<Rightarrow> 'r list option \<times> 'w"

definition DoMulti ::
  "('c, 'w, 'r) DedicatedSingleClient \<Rightarrow> 'c list \<Rightarrow> 'w \<Rightarrow> 'r list option \<times> 'w" where
  "DoMulti c multi st =
     (if length multi = 0 then (None, st)
      else (let (resp, st1) = wire c multi st
            in (resp, foldl (\<lambda>st2 x. cmd c x st2) st1 multi)))"

section \<open>The wire pipeline\<close>

text \<open>
  Modelled from the spec: the pipeline (submit, writer, receive loop, fault handling,
  close) is not among the source files; the definitions of this section follow
  sections 3 and 4.2 of the specification.

  A RESP3 value, with the variants the pipeline and the cache tell apart.
\<close>

datatype message =
    SimpleString string
  | ErrorString string
  | Integer int
  | BlobString string
  | Null
  | Array "message list"
  | Push "message list"

text \<open>Modelled from the spec: the command type is declared outside the source files;
  section 3 gives it as an ordered token sequence plus three flags.\<close>

record command =
  tokens :: "string list"
  read_only :: bool
  blocking :: bool
  no_reply :: bool

datatype wire_error = ErrConnBroken | ErrClosing | ErrContextCancelled

datatype completion = Replied message | Failed wire_error

datatype pipe_status = Open | Closing | Broken

text \<open>
  Modelled from the spec: the in-flight entry of section 3 (the pipeline is not among the
  source files): the command and its completion sink, which the model names by the
  entry's number; one per unacknowledged request.
\<close>

record inflight_entry =
  entry_id :: nat
  entry_cmd :: command

text \<open>
  Modelled from the spec: the pipeline of section 4.2, which is not among the source
  files. The pipeline owns the write-side queue of commands awaiting transmission and the
  read-side FIFO of in-flight entries awaiting completion. \<open>confirmations\<close> counts the
  confirmation frames already consumed for a subscribe command at the head of the FIFO.
  The remaining fields record what happened, in order: the entries accepted by submit,
  the completions delivered to sinks, the submits refused, the push frames routed and
  the commands written to the socket.
\<close>

record pipeline =
  write_queue :: "inflight_entry list"
  fifo :: "inflight_entry list"
  confirmations :: nat
  status :: pipe_status
  submitted :: "nat list"
  completed :: "(nat \<times> completion) list"
  rejected :: "(command \<times> wire_error) list"
  pushes :: "message list"
  on_wire :: "command list"
  cancelled :: "nat list"

definition init_pipeline :: pipeline where
  "init_pipeline =
     \<lparr>write_queue = [], fifo = [], confirmations = 0, status = Open, submitted = [],
      completed = [], rejected = [], pushes = [], on_wire = [], cancelled = []\<rparr>"

text \<open>
  Modelled from the spec: what can happen to the pipeline of section 4.2: a caller submits a command; the writer drains up to
  \<open>n\<close> queued commands; the reader decodes one frame; an I/O error or protocol violation
  occurs; a caller's context is cancelled; the pipeline is closed.
\<close>

datatype pipe_event =
    Submit command
  | Write nat
  | Frame message
  | Fault
  | Cancel nat
  | Close

text \<open>Modelled from the spec: the channel arguments of a subscribe or unsubscribe
  command (section 4.2) are the tokens that follow its name.\<close>

definition channel_args :: "command \<Rightarrow> nat" where
  "channel_args c = length (tl (tokens c))"

text \<open>
  Modelled from the spec: fault handling (section 4.2), not among the source files. The
  pipeline becomes \<open>Broken\<close> and every remaining entry (created on
  submit, consumed on reply or on this fan-out) is completed with \<open>ErrConnBroken\<close>,
  oldest first.
\<close>

definition fault :: "pipeline \<Rightarrow> pipeline" where
  "fault p =
     p\<lparr>status := Broken,
       completed := completed p @
         map (\<lambda>e. (entry_id e, Failed ErrConnBroken)) (fifo p @ write_queue p),
       fifo := [], write_queue := [], confirmations := 0\<rparr>"

text \<open>
  Modelled from the spec: submit (section 4.2), not among the source files. Submit
  enqueues the command; once the pipeline is broken or closing it accepts no
  submit and the call fails immediately.
\<close>

definition submit :: "command \<Rightarrow> pipeline \<Rightarrow> pipeline" where
  "submit c p =
     (case status p of
        Open \<Rightarrow>
          p\<lparr>write_queue := write_queue p @ [\<lparr>entry_id = length (submitted p), entry_cmd = c\<rparr>],
            submitted := submitted p @ [length (submitted p)]\<rparr>
      | Closing \<Rightarrow> p\<lparr>rejected := rejected p @ [(c, ErrClosing)]\<rparr>
      | Broken \<Rightarrow> p\<lparr>rejected := rejected p @ [(c, ErrConnBroken)]\<rparr>)"

text \<open>
  Modelled from the spec: the writer (section 4.2), not among the source files. The
  writer appends to the FIFO and writes the encoded bytes, as one step for the
  commands it drains, so that the order on the wire is the order of the FIFO.
\<close>

definition writer :: "nat \<Rightarrow> pipeline \<Rightarrow> pipeline" where
  "writer n p =
     (if status p = Broken then p
      else p\<lparr>fifo := fifo p @ take n (write_queue p),
             on_wire := on_wire p @ map entry_cmd (take n (write_queue p)),
             write_queue := drop n (write_queue p)\<rparr>)"

text \<open>
  Modelled from the spec: the receive loop (section 4.2), not among the source files, on
  one decoded frame. A push frame is routed and consumes no entry.
  Any other frame belongs to the head of the FIFO: a subscribe command consumes one
  confirmation frame per channel argument before it completes, any other command
  completes with the frame. A reply that no entry awaits is a protocol violation.
\<close>

definition receive_frame :: "message \<Rightarrow> pipeline \<Rightarrow> pipeline" where
  "receive_frame msg p =
     (if status p = Broken then p
      else case msg of
        Push xs \<Rightarrow> p\<lparr>pushes := pushes p @ [msg]\<rparr>
      | _ \<Rightarrow>
          (case fifo p of
             [] \<Rightarrow> fault p
           | e # rest \<Rightarrow>
               if no_reply (entry_cmd e) \<and> Suc (confirmations p) < channel_args (entry_cmd e)
               then p\<lparr>confirmations := Suc (confirmations p)\<rparr>
               else p\<lparr>fifo := rest, confirmations := 0,
                      completed := completed p @ [(entry_id e, Replied msg)]\<rparr>))"

text \<open>
  Modelled from the spec: one step of the pipeline (sections 4.2 and 5), not among the
  source files. Cancellation does not remove the entry from the FIFO; the caller stops
  waiting. Close stops accepting new submits and waits for the outstanding sinks.
\<close>

fun pipe_step :: "pipeline \<Rightarrow> pipe_event \<Rightarrow> pipeline" where
  "pipe_step p (Submit c) = submit c p"
| "pipe_step p (Write n) = writer n p"
| "pipe_step p (Frame msg) = receive_frame msg p"
| "pipe_step p Fault = fault p"
| "pipe_step p (Cancel i) = p\<lparr>cancelled := cancelled p @ [i]\<rparr>"
| "pipe_step p Close = (if status p = Open then p\<lparr>status := Closing\<rparr> else p)"

text \<open>Modelled from the spec: a pipeline is created empty and open, and then lives
  through a sequence of events.\<close>

definition pipe_run :: "pipe_event list \<Rightarrow> pipeline" where
  "pipe_run evs = foldl pipe_step init_pipeline evs"

text \<open>
  The pipeline's invariant: completed, in-flight and queued entries, in this order, are
  the submitted entries, and these are numbered in order of submission.
\<close>

definition pipe_inv :: "pipeline \<Rightarrow> bool" where
  "pipe_inv p \<longleftrightarrow>
     map fst (completed p) @ map entry_id (fifo p) @ map entry_id (write_queue p) = submitted p \<and>
     submitted p = [0..<length (submitted p)]"

section \<open>The client-side cache\<close>

text \<open>
  Modelled from the spec: the cache and \<^verbatim>\<open>DoCache\<close> are not among the source files (only
  the tests that call \<^verbatim>\<open>DoCache\<close> are); the definitions of this section follow
  sections 3 and 4.4 of the specification. The model covers the three steps of
  \<^verbatim>\<open>DoCache\<close>, the reply and the error of a fetch, lazy expiry and invalidation pushes;
  the bound on the number of entries is not modelled. Callers and instants of the
  monotonic clock are natural numbers.
\<close>

type_synonym cache_key = string
type_synonym fingerprint = "64 word"
type_synonym caller = nat
type_synonym instant = nat

datatype entry_state = Pending | Ready | Invalidated

text \<open>Modelled from the spec: the cache entry of section 3 (the cache is not among the
  source files): its state, the value when ready, the deadline, the waiters.\<close>

record cache_entry =
  state :: entry_state
  cached :: message
  expires_at :: instant
  waiters :: "caller list"

text \<open>Modelled from the spec: the result type is declared outside the source files; by
  section 6 a result of \<^verbatim>\<open>DoCache\<close> carries the reply and the \<^verbatim>\<open>cache_hit\<close> flag, or the call
  fails.\<close>

datatype response = Result message bool | Failure string

text \<open>
  Modelled from the spec: the server requests of the cache (section 4.4), not among the
  source files. A fetch is a server request that \<^verbatim>\<open>DoCache\<close> has submitted and that is not answered
  yet. When its pending entry is invalidated, the entry leaves the table and stays with
  the fetch (\<open>detached\<close>), so that the eventual reply reaches the waiters without being
  inserted into the cache.
\<close>

record fetch =
  fetch_key :: cache_key
  fetch_fp :: fingerprint
  issuer :: caller
  fetch_ttl :: nat
  detached :: "cache_entry option"

text \<open>
  Modelled from the spec: the cache of one wire (sections 3 and 4.4), not among the
  source files: the entries keyed by cache key and fingerprint, the fetches in
  flight, oldest first (replies arrive in this order), and the responses returned to
  callers so far.
\<close>

record cache =
  entries :: "cache_key \<times> fingerprint \<rightharpoonup> cache_entry"
  outstanding :: "fetch list"
  returned :: "(caller \<times> response) list"

definition init_cache :: cache where
  "init_cache = \<lparr>entries = Map.empty, outstanding = [], returned = []\<rparr>"

text \<open>
  Modelled from the spec: the last branch of step 2 of \<^verbatim>\<open>DoCache\<close> (section 4.4), not
  among the source files: create a pending entry and submit the command. The caller
  gets its response, with \<^verbatim>\<open>cache_hit=false\<close>, when the reply arrives.
\<close>

definition issue :: "caller \<Rightarrow> cache_key \<Rightarrow> fingerprint \<Rightarrow> nat \<Rightarrow> cache \<Rightarrow> cache" where
  "issue c k f ttl st =
     st\<lparr>entries := (entries st)((k, f) \<mapsto>
            \<lparr>state = Pending, cached = Null, expires_at = 0, waiters = []\<rparr>),
        outstanding := outstanding st @
            [\<lparr>fetch_key = k, fetch_fp = f, issuer = c, fetch_ttl = ttl, detached = None\<rparr>]\<rparr>"

text \<open>
  Modelled from the spec: \<^verbatim>\<open>DoCache\<close> is not among the source files; this is step 2 of
  \<^verbatim>\<open>DoCache(cmd, ttl)\<close> in section 4.4, at instant \<open>now\<close>, the critical section on the entry
  slot: a ready entry that has not expired is returned with \<^verbatim>\<open>cache_hit=true\<close>; on a
  pending entry the caller registers as a waiter; otherwise (no entry, or an expired one,
  which is discarded) a fetch is issued.
\<close>

definition do_cache :: "caller \<Rightarrow> cache_key \<Rightarrow> fingerprint \<Rightarrow> nat \<Rightarrow> instant \<Rightarrow> cache \<Rightarrow> cache" where
  "do_cache c k f ttl now st =
     (case entries st (k, f) of
        None \<Rightarrow> issue c k f ttl st
      | Some e \<Rightarrow>
          if state e = Ready \<and> now < expires_at e
          then st\<lparr>returned := returned st @ [(c, Result (cached e) True)]\<rparr>
          else if state e = Pending
          then st\<lparr>entries := (entries st)((k, f) \<mapsto> e\<lparr>waiters := waiters e @ [c]\<rparr>)\<rparr>
          else issue c k f ttl st)"

text \<open>
  Modelled from the spec: the deadline of a reply (section 4.4),
  \<^verbatim>\<open>now + min(ttl, server_ttl_hint)\<close>; the server may give no hint.
\<close>

definition deadline :: "instant \<Rightarrow> nat \<Rightarrow> nat option \<Rightarrow> instant" where
  "deadline now ttl hint = now + (case hint of None \<Rightarrow> ttl | Some h \<Rightarrow> min ttl h)"

text \<open>
  Modelled from the spec: the completion of a fetch (section 4.4, steps 2 and
  invalidation), not among the source files. The reply goes to the oldest fetch. If its
  entry is still pending, the entry becomes ready
  and the waiters receive the entry's value; the spec leaves the flag of a waiter's
  response open (section 9), and the model gives it \<^verbatim>\<open>cache_hit=true\<close>, the issuer alone
  having caused a server request. If the entry was invalidated meanwhile, the reply is
  returned to issuer and waiters and is not inserted.
\<close>

definition server_reply :: "message \<Rightarrow> nat option \<Rightarrow> instant \<Rightarrow> cache \<Rightarrow> cache" where
  "server_reply msg hint now st =
     (case outstanding st of
        [] \<Rightarrow> st
      | r # rest \<Rightarrow>
          (case detached r of
             Some e \<Rightarrow>
               st\<lparr>outstanding := rest,
                  returned := returned st @ (issuer r, Result msg False) #
                     map (\<lambda>w. (w, Result msg False)) (waiters e)\<rparr>
           | None \<Rightarrow>
               (case entries st (fetch_key r, fetch_fp r) of
                  None \<Rightarrow>
                    st\<lparr>outstanding := rest,
                       returned := returned st @ [(issuer r, Result msg False)]\<rparr>
                | Some e \<Rightarrow>
                    if state e = Pending
                    then st\<lparr>entries := (entries st)((fetch_key r, fetch_fp r) \<mapsto>
                              \<lparr>state = Ready, cached = msg,
                               expires_at = deadline now (fetch_ttl r) hint, waiters = []\<rparr>),
                            outstanding := rest,
                            returned := returned st @ (issuer r, Result msg False) #
                               map (\<lambda>w. (w, Result msg True)) (waiters e)\<rparr>
                    else st\<lparr>outstanding := rest,
                            returned := returned st @ [(issuer r, Result msg False)]\<rparr>)))"

text \<open>Modelled from the spec: step 3 of \<^verbatim>\<open>DoCache\<close> (section 4.4), not among the source
  files. On error: remove the pending entry and fail all waiters uniformly.\<close>

definition server_error :: "string \<Rightarrow> cache \<Rightarrow> cache" where
  "server_error err st =
     (case outstanding st of
        [] \<Rightarrow> st
      | r # rest \<Rightarrow>
          (case detached r of
             Some e \<Rightarrow>
               st\<lparr>outstanding := rest,
                  returned := returned st @ (issuer r, Failure err) #
                     map (\<lambda>w. (w, Failure err)) (waiters e)\<rparr>
           | None \<Rightarrow>
               (case entries st (fetch_key r, fetch_fp r) of
                  None \<Rightarrow>
                    st\<lparr>outstanding := rest,
                       returned := returned st @ [(issuer r, Failure err)]\<rparr>
                | Some e \<Rightarrow>
                    if state e = Pending
                    then st\<lparr>entries := (entries st)((fetch_key r, fetch_fp r) := None),
                            outstanding := rest,
                            returned := returned st @ (issuer r, Failure err) #
                               map (\<lambda>w. (w, Failure err)) (waiters e)\<rparr>
                    else st\<lparr>outstanding := rest,
                            returned := returned st @ [(issuer r, Failure err)]\<rparr>)))"

text \<open>
  Modelled from the spec: invalidation (section 4.4), not among the source files, on the
  push \<^verbatim>\<open>invalidate [k1, k2, ...]\<close>: every entry whose cache key is
  in the list becomes invalidated and is removed, pending entries too; a null payload
  (\<open>None\<close>) flushes all entries.
\<close>

definition invalidated_key :: "cache_key list option \<Rightarrow> cache_key \<Rightarrow> bool" where
  "invalidated_key keys k = (case keys of None \<Rightarrow> True | Some listed \<Rightarrow> k \<in> set listed)"

definition detach :: "cache \<Rightarrow> fetch \<Rightarrow> fetch" where
  "detach st r =
     (case entries st (fetch_key r, fetch_fp r) of
        None \<Rightarrow> r
      | Some e \<Rightarrow>
          if state e = Pending \<and> detached r = None
          then r\<lparr>detached := Some (e\<lparr>state := Invalidated\<rparr>)\<rparr>
          else r)"

definition invalidate :: "cache_key list option \<Rightarrow> cache \<Rightarrow> cache" where
  "invalidate keys st =
     st\<lparr>entries := (\<lambda>(k, f). if invalidated_key keys k then None else entries st (k, f)),
        outstanding :=
          map (\<lambda>r. if invalidated_key keys (fetch_key r) then detach st r else r)
            (outstanding st)\<rparr>"

text \<open>
  Modelled from the spec: the events of a cache (section 4.4 and 5), in the order in which the critical sections and the wire's
  frames occur; concurrent callers are the interleavings of their events.
\<close>

datatype cache_event =
    DoCache caller cache_key fingerprint nat instant
  | ServerReply message "nat option" instant
  | ServerError string
  | Invalidate "cache_key list option"

fun cache_step :: "cache \<Rightarrow> cache_event \<Rightarrow> cache" where
  "cache_step st (DoCache c k f ttl now) = do_cache c k f ttl now st"
| "cache_step st (ServerReply msg hint now) = server_reply msg hint now st"
| "cache_step st (ServerError err) = server_error err st"
| "cache_step st (Invalidate keys) = invalidate keys st"

definition cache_run :: "cache_event list \<Rightarrow> cache" where
  "cache_run evs = foldl cache_step init_cache evs"

text \<open>What the claims count.\<close>

fun is_miss :: "caller \<times> response \<Rightarrow> bool" where
  "is_miss (c, Result msg hit) = (\<not> hit)"
| "is_miss (c, Failure err) = False"

fun is_hit :: "caller \<times> response \<Rightarrow> bool" where
  "is_hit (c, Result msg hit) = hit"
| "is_hit (c, Failure err) = False"

definition misses :: "cache \<Rightarrow> nat" where
  "misses st = length (filter is_miss (returned st))"

definition hits :: "cache \<Rightarrow> nat" where
  "hits st = length (filter is_hit (returned st))"

text \<open>The server requests in flight for a key and fingerprint: all, and those whose
  entry has not been invalidated.\<close>

definition in_flight :: "cache \<Rightarrow> cache_key \<Rightarrow> fingerprint \<Rightarrow> nat" where
  "in_flight st k f =
     length (filter (\<lambda>r. fetch_key r = k \<and> fetch_fp r = f) (outstanding st))"

definition in_flight_live :: "cache \<Rightarrow> cache_key \<Rightarrow> fingerprint \<Rightarrow> nat" where
  "in_flight_live st k f =
     length (filter (\<lambda>r. fetch_key r = k \<and> fetch_fp r = f \<and> detached r = None)
       (outstanding st))"

text \<open>The keys and fingerprints, and the callers, of the \<^verbatim>\<open>DoCache\<close> calls of a trace.\<close>

fun called :: "cache_event list \<Rightarrow> (cache_key \<times> fingerprint) list" where
  "called [] = []"
| "called (DoCache c k f ttl now # evs) = (k, f) # called evs"
| "called (e # evs) = called evs"

fun callers :: "cache_event list \<Rightarrow> caller list" where
  "callers [] = []"
| "callers (DoCache c k f ttl now # evs) = c # callers evs"
| "callers (e # evs) = callers evs"

section \<open>The hit-ratio check of testSETGET (redis_test.go)\<close>

text \<open>
  The client-side caching phase of \<^verbatim>\<open>testSETGET\<close>: with \<^verbatim>\<open>keys := 10000\<close> the loop issues
  \<^verbatim>\<open>keys*10\<close> calls \<^verbatim>\<open>DoCache(GET key, time.Minute)\<close> with \<^verbatim>\<open>key\<close> drawn by
  \<^verbatim>\<open>rand.Intn(keys / 100)\<close>, counts the responses by \<^verbatim>\<open>IsCacheHit\<close>, and fails when
  \<^verbatim>\<open>miss != 100 || hits != int64(keys*10-100)\<close>.
\<close>



definition testSETGET_keys :: nat where
  "testSETGET_keys = 10000"

definition testSETGET_csc_calls :: nat where
  "testSETGET_csc_calls = testSETGET_keys * 10"

definition testSETGET_csc_range :: nat where
  "testSETGET_csc_range = testSETGET_keys div 100"

definition testSETGET_csc_fails :: "nat \<Rightarrow> nat \<Rightarrow> bool" where
  "testSETGET_csc_fails miss hit \<longleftrightarrow> miss \<noteq> 100 \<or> hit \<noteq> testSETGET_keys * 10 - 100"

section \<open>Invariants and measures of the cache\<close>

text \<open>The entry slot a fetch belongs to, and the fetches whose entry has not been
  invalidated.\<close>

definition fetch_slot :: "fetch \<Rightarrow> cache_key \<times> fingerprint" where
  "fetch_slot r = (fetch_key r, fetch_fp r)"

definition live :: "cache \<Rightarrow> fetch list" where
  "live st = filter (\<lambda>r. detached r = None) (outstanding st)"

text \<open>
  Every fetch that is not detached has a pending entry in its slot, and no two of them
  share a slot.
\<close>

definition cache_inv :: "cache \<Rightarrow> bool" where
  "cache_inv st \<longleftrightarrow>
     (\<forall>r \<in> set (live st). \<exists>e. entries st (fetch_slot r) = Some e \<and> state e = Pending) \<and>
     distinct (map fetch_slot (live st))"

text \<open>
  The events \<open>evs\<close>, starting from the cache \<open>st\<close>, leave the slot \<open>(k, f)\<close> undisturbed
  when no invalidation push for \<open>k\<close> (or flush) arrives while a fetch for \<open>(k, f)\<close> is
  pending.
\<close>

fun undisturbed :: "cache_key \<Rightarrow> fingerprint \<Rightarrow> cache \<Rightarrow> cache_event list \<Rightarrow> bool" where
  "undisturbed k f st [] = True"
| "undisturbed k f st (Invalidate keys # evs) =
     ((invalidated_key keys k \<longrightarrow> in_flight_live st k f = 0) \<and>
      undisturbed k f (invalidate keys st) evs)"
| "undisturbed k f st (e # evs) = undisturbed k f (cache_step st e) evs"

text \<open>No fetch in flight for \<open>(k, f)\<close> has had its entry invalidated.\<close>

definition slot_live :: "cache_key \<Rightarrow> fingerprint \<Rightarrow> cache \<Rightarrow> bool" where
  "slot_live k f st \<longleftrightarrow>
     (\<forall>r \<in> set (outstanding st). fetch_key r = k \<and> fetch_fp r = f \<longrightarrow> detached r = None)"

text \<open>
  The events of a run without writes or failures within one time to live: every call
  uses the time to live \<open>ttl\<close> and happens before \<open>t0 + ttl\<close>, every reply arrives from \<open>t0\<close>
  on and carries no server hint below \<open>ttl\<close>, and there is neither an error nor an
  invalidation.
\<close>

fun steady :: "instant \<Rightarrow> nat \<Rightarrow> cache_event \<Rightarrow> bool" where
  "steady t0 ttl (DoCache c k f ttl1 now) = (ttl1 = ttl \<and> t0 \<le> now \<and> now < t0 + ttl)"
| "steady t0 ttl (ServerReply msg hint now) =
     (t0 \<le> now \<and> (case hint of None \<Rightarrow> True | Some h \<Rightarrow> ttl \<le> h))"
| "steady t0 ttl (ServerError err) = False"
| "steady t0 ttl (Invalidate keys) = False"

text \<open>The callers registered as waiters on the entry of a fetch, and on all of them.\<close>

definition waiting_of :: "cache \<Rightarrow> fetch \<Rightarrow> nat" where
  "waiting_of st r =
     (case entries st (fetch_slot r) of None \<Rightarrow> 0 | Some e \<Rightarrow> length (waiters e))"

definition waiting :: "cache \<Rightarrow> nat" where
  "waiting st = sum_list (map (waiting_of st) (outstanding st))"

text \<open>
  The bookkeeping of such a run: each requested slot has an entry, pending with its
  fetch in flight or ready and not expiring before \<open>t0 + ttl\<close>; the responses with
  \<^verbatim>\<open>cache_hit=false\<close> and the fetches in flight are as many as the slots requested; and
  every call has been answered, is the issuer of a fetch in flight, or waits.
\<close>

definition steady_inv :: "instant \<Rightarrow> nat \<Rightarrow> cache_event list \<Rightarrow> cache \<Rightarrow> bool" where
  "steady_inv t0 ttl evs st \<longleftrightarrow>
     (\<forall>r \<in> set (outstanding st). detached r = None \<and> fetch_ttl r = ttl) \<and>
     (\<forall>kf. (entries st kf \<noteq> None) = (kf \<in> set (called evs))) \<and>
     (\<forall>kf e. entries st kf = Some e \<longrightarrow>
        (state e = Pending \<and> kf \<in> fetch_slot ` set (outstanding st)) \<or>
        (state e = Ready \<and> t0 + ttl \<le> expires_at e)) \<and>
     misses st + length (outstanding st) = card (set (called evs)) \<and>
     hits st + misses st + length (outstanding st) + waiting st = length (called evs)"

text \<open>
  The events after a flush in scenario 2: calls, and replies that are null because the
  keys are gone.
\<close>

fun after_flush :: "cache_event \<Rightarrow> bool" where
  "after_flush (DoCache c k f ttl now) = True"
| "after_flush (ServerReply msg hint now) = (msg = Null)"
| "after_flush e = False"

definition fresh_entry :: cache_entry where
  "fresh_entry = \<lparr>state = Pending, cached = Null, expires_at = 0, waiters = []\<rparr>"

text \<open>
  After a flush of the quiescent cache \<open>st0\<close> and the events \<open>evs\<close>: the fetches in flight
  are those of the latest calls, each with a pending entry without waiters, and the
  earlier calls have been answered, in order, with the null reply and
  \<^verbatim>\<open>cache_hit=false\<close>.
\<close>

definition flush_inv :: "cache \<Rightarrow> cache_event list \<Rightarrow> cache \<Rightarrow> bool" where
  "flush_inv st0 evs st \<longleftrightarrow>
     (\<forall>r \<in> set (outstanding st). detached r = None \<and> entries st (fetch_slot r) = Some fresh_entry) \<and>
     (\<forall>kf. (entries st kf \<noteq> None) = (kf \<in> set (called evs))) \<and>
     (\<exists>n \<le> length (callers evs).
        map issuer (outstanding st) = drop n (callers evs) \<and>
        map fetch_slot (outstanding st) = drop n (called evs) \<and>
        returned st = returned st0 @ map (\<lambda>c. (c, Result Null False)) (take n (callers evs)))"

section \<open>Sample inputs\<close>

text \<open>
  Stand-ins for the declarations outside builder.go, a memory with one pooled and one
  live slice, and a client program that reaches it; then a client program that appends
  to a command after recycling it, and the memory it reaches. They serve to run the
  definitions on concrete inputs.
\<close>

definition demo_decls :: slot_decls where
  "demo_decls = \<lparr>NoSlot = 32768, check = (\<lambda>prev new. new), slot = (\<lambda>k. of_nat (length k))\<rparr>"

definition demo_memory :: memory where
  "demo_memory = \<lparr>heap = [\<lparr>s = []\<rparr>, \<lparr>s = [''GET'', ''k'']\<rparr>], pool = [0]\<rparr>"

definition demo_calls :: "16 word call list" where
  "demo_calls =
     [Call_Arbitrary (NewBuilder 16384) None [''SET'', ''k'', ''v''],
      Call_Put 0,
      Call_Arbitrary (NewBuilder 16384) None [''GET''],
      Call_Keys \<lparr>cs = 1, cf = 0, ks = 16384\<rparr> [''k'']]"

definition stale_calls :: "16 word call list" where
  "stale_calls =
     [Call_Arbitrary (NewBuilder 16384) None [''SET'', ''k'', ''v''],
      Call_Put 0,
      Call_Args \<lparr>cs = 0, cf = 0, ks = 16384\<rparr> [''stale'']]"

definition stale_memory :: memory where
  "stale_memory = \<lparr>heap = [\<lparr>s = [''stale'']\<rparr>], pool = [0]\<rparr>"

text \<open>Traces of the cache: an invalidation racing a pending fetch; invalidations that
  leave the pending fetch of \<open>k\<close> alone; 10000 calls that cover the keys 0 to 99, each
  key fetched once and the rest hits; the calls after a flush, and the cache they start
  from.\<close>

definition race_trace :: "cache_event list" where
  "race_trace =
     [DoCache 1 ''k'' 7 60000 0, Invalidate (Some [''k'']), DoCache 2 ''k'' 7 60000 1]"

definition other_key_trace :: "cache_event list" where
  "other_key_trace =
     [DoCache 1 ''k'' 7 60000 0, Invalidate (Some [''j'']), DoCache 2 ''k'' 7 60000 1,
      ServerReply (BlobString ''v'') None 2, Invalidate (Some [''k'']),
      DoCache 3 ''k'' 7 60000 3]"



definition flushed_trace :: "cache_event list" where
  "flushed_trace =
     [DoCache 2 ''0'' 1 60000 5, DoCache 3 ''1'' 2 60000 5,
      ServerReply Null None 6, ServerReply Null None 7]"

definition warm_cache :: cache where
  "warm_cache = cache_run [DoCache 1 ''0'' 1 60000 0, ServerReply (BlobString ''v'') None 1]"

section \<open>Properties of the builder and the pool\<close>

lemma deref_heap_update:
  "deref (m\<lparr>heap := (heap m)[a := c]\<rparr>) b =
     (if b = a \<and> a < length (heap m) then Some c else deref m b)"
  by (simp add: deref_def)

lemma deref_pool_update: "deref (m\<lparr>pool := p\<rparr>) b = deref m b"
  by (simp add: deref_def)

lemma deref_new:
  "deref (m\<lparr>heap := heap m @ [c]\<rparr>) b =
     (if b = length (heap m) then Some c else deref m b)"
  by (auto simp: deref_def nth_append)

lemma pool_inv_init: "pool_inv init_memory"
  by (simp add: pool_inv_def init_memory_def)

lemma get_fresh:
  assumes "pool_inv m" and "get pick m = (a, m1)"
  shows "deref m1 a = Some \<lparr>s = []\<rparr> \<and> a \<notin> set (pool m1) \<and> pool_inv m1"
proof (cases "\<exists>i. pick = Some i \<and> i < length (pool m)")
  case True
  then obtain i where i: "pick = Some i" "i < length (pool m)" by blast
  from assms(2) i have a: "a = pool m ! i"
    and m1: "m1 = m\<lparr>pool := take i (pool m) @ drop (Suc i) (pool m)\<rparr>"
    by (auto simp: get_def)
  have d: "distinct (pool m)" using assms(1) by (simp add: pool_inv_def)
  have mem: "a \<in> set (pool m)" using a i(2) by simp
  have sub: "set (take i (pool m) @ drop (Suc i) (pool m)) \<subseteq> set (pool m)"
    by (auto dest: in_set_takeD in_set_dropD)
  have split: "pool m = take i (pool m) @ a # drop (Suc i) (pool m)"
    using a i(2) by (simp add: id_take_nth_drop)
  have notin: "a \<notin> set (take i (pool m) @ drop (Suc i) (pool m))"
    using d split by (metis distinct_append distinct.simps(2) set_append UnE not_distinct_conv_prefix)
  have d1: "distinct (take i (pool m) @ drop (Suc i) (pool m))"
    using d split by (metis distinct_append distinct.simps(2) disjoint_iff list.set_intros(2))
  show ?thesis
    using assms(1) mem sub notin d1 unfolding m1 pool_inv_def
    by (auto simp: deref_pool_update)
next
  case False
  then have "get pick m = newCommandSlice m"
    by (cases pick) (auto simp: get_def)
  with assms(2) have a: "a = length (heap m)"
    and m1: "m1 = m\<lparr>heap := heap m @ [\<lparr>s = []\<rparr>]\<rparr>"
    by (auto simp: newCommandSlice_def)
  have "length (heap m) \<notin> set (pool m)"
    using assms(1) unfolding pool_inv_def deref_def by (metis less_irrefl option.distinct(1))
  then show ?thesis
    using assms(1) unfolding a m1 pool_inv_def
    by (auto simp: deref_new)
qed

lemma append_s_owned:
  assumes "pool_inv m" and "a \<notin> set (pool m)" and "append_s a xs m = Some m1"
  shows "pool_inv m1 \<and> pool m1 = pool m"
  using assms unfolding append_s_def pool_inv_def
  by (auto simp: deref_heap_update split: option.splits)

lemma Put_owned:
  assumes "pool_inv m" and "a \<notin> set (pool m)" and "Put a m = Some m1"
  shows "pool_inv m1"
proof -
  obtain c where c: "deref m a = Some c"
    using assms(3) by (auto simp: Put_def split: option.splits)
  then have lt: "a < length (heap m)"
    by (simp add: deref_def split: if_splits)
  have m1: "m1 = m\<lparr>heap := (heap m)[a := c\<lparr>s := take 0 (s c)\<rparr>], pool := a # pool m\<rparr>"
    using assms(3) c by (simp add: Put_def)
  have eq: "deref m1 b = (if b = a then Some (c\<lparr>s := []\<rparr>) else deref m b)" for b
    unfolding m1 using lt by (simp add: deref_def)
  show ?thesis
    using assms(1,2) unfolding pool_inv_def eq by (auto simp: m1)
qed

lemma Arbitrary_tokens:
  assumes "pool_inv m"
  shows "\<exists>c m1. Arbitrary b pick t m = Some (c :: ('f::zero) Arbitrary, m1) \<and> Commands c m1 = Some t \<and>
           cs c \<notin> set (pool m1) \<and> pool_inv m1"
proof -
  obtain a m0 where g: "get pick m = (a, m0)" by (cases "get pick m")
  from get_fresh [OF assms g]
  have h: "deref m0 a = Some \<lparr>s = []\<rparr>" and n: "a \<notin> set (pool m0)" and i: "pool_inv m0"
    by simp_all
  let ?m1 = "m0\<lparr>heap := (heap m0)[a := \<lparr>s = t\<rparr>]\<rparr>"
  have ap: "append_s a t m0 = Some ?m1"
    using h by (simp add: append_s_def)
  have "pool_inv ?m1 \<and> pool ?m1 = pool m0"
    using append_s_owned [OF i n ap] .
  moreover have "a < length (heap m0)"
    using h by (simp add: deref_def split: if_splits)
  ultimately show ?thesis
    using g ap n by (simp add: Arbitrary_def Commands_def deref_def)
qed

lemma Keys_tokens:
  assumes "Commands c m = Some xs"
  shows "\<exists>c1 m1. Keys d c k m = Some (c1, m1) \<and> Commands c1 m1 = Some (xs @ k)"
  using assms by (auto simp: Keys_def Commands_def append_s_def Let_def deref_def split: if_splits)

lemma Args_tokens:
  assumes "Commands c m = Some xs"
  shows "\<exists>c1 m1. Args c k m = Some (c1, m1) \<and> Commands c1 m1 = Some (xs @ k)"
  using assms by (auto simp: Args_def Commands_def append_s_def deref_def split: if_splits)

lemma exec_call_inv:
  assumes "pool_inv m" and "owned x m" and "exec_call d x m = Some m1"
  shows "pool_inv m1"
proof (cases x)
  case (Call_Arbitrary b pick t)
  obtain c :: "'a Arbitrary" and m2 where "Arbitrary b pick t m = Some (c, m2)" "pool_inv m2"
    using Arbitrary_tokens [OF assms(1)] by blast
  then show ?thesis using assms(3) Call_Arbitrary by simp
next
  case (Call_Keys c k)
  then show ?thesis
    using assms append_s_owned [of m "cs c" k m1]
    by (auto simp: Keys_def Let_def split: if_splits bind_splits)
next
  case (Call_Args c k)
  then show ?thesis
    using assms append_s_owned [of m "cs c" k m1]
    by (auto simp: Args_def split: bind_splits)
next
  case (Call_Put a)
  then show ?thesis
    using assms Put_owned by auto
qed

lemma run_inv:
  "pool_inv m \<Longrightarrow> disciplined d xs m \<Longrightarrow> run d xs m = Some m1 \<Longrightarrow> pool_inv m1"
proof (induction xs arbitrary: m)
  case Nil
  then show ?case by simp
next
  case (Cons x xs)
  then show ?case
    by (auto split: option.splits dest: exec_call_inv)
qed

text \<open>Whatever the client does, pooled addresses stay allocated.\<close>

lemma pool_alloc_init: "pool_alloc init_memory"
  by (simp add: pool_alloc_def init_memory_def)

lemma get_alloc:
  assumes "pool_alloc m"
  shows "fst (get pick m) < length (heap (snd (get pick m))) \<and> pool_alloc (snd (get pick m))"
proof (cases "\<exists>i. pick = Some i \<and> i < length (pool m)")
  case True
  then obtain i where i: "pick = Some i" "i < length (pool m)" by blast
  have "set (take i (pool m) @ drop (Suc i) (pool m)) \<subseteq> set (pool m)"
    by (auto dest: in_set_takeD in_set_dropD)
  moreover have "pool m ! i \<in> set (pool m)" using i(2) by simp
  ultimately show ?thesis
    using assms i unfolding pool_alloc_def get_def by auto
next
  case False
  then have "get pick m = newCommandSlice m"
    by (cases pick) (auto simp: get_def)
  then show ?thesis
    using assms unfolding pool_alloc_def newCommandSlice_def by (auto simp: less_Suc_eq)
qed

lemma append_s_alloc:
  assumes "pool_alloc m" and "append_s a xs m = Some m1"
  shows "pool_alloc m1"
  using assms unfolding append_s_def pool_alloc_def by (auto split: option.splits)

lemma Put_alloc:
  assumes "pool_alloc m" and "Put a m = Some m1"
  shows "pool_alloc m1"
  using assms unfolding Put_def pool_alloc_def deref_def
  by (auto split: option.splits if_splits)

lemma exec_call_alloc:
  assumes "pool_alloc m" and "exec_call d x m = Some m1"
  shows "pool_alloc m1"
proof (cases x)
  case (Call_Arbitrary b pick t)
  then show ?thesis
    using assms get_alloc [OF assms(1), of pick]
      append_s_alloc [of "snd (get pick m)" "fst (get pick m)" t m1]
    by (auto simp: Arbitrary_def split_beta split: bind_splits)
next
  case (Call_Keys c k)
  then show ?thesis
    using assms append_s_alloc [of m "cs c" k m1]
    by (auto simp: Keys_def Let_def split: if_splits bind_splits)
next
  case (Call_Args c k)
  then show ?thesis
    using assms append_s_alloc [of m "cs c" k m1]
    by (auto simp: Args_def split: bind_splits)
next
  case (Call_Put a)
  then show ?thesis
    using assms Put_alloc by auto
qed

lemma run_alloc:
  "pool_alloc m \<Longrightarrow> run d xs m = Some m1 \<Longrightarrow> pool_alloc m1"
proof (induction xs arbitrary: m)
  case Nil
  then show ?case by simp
next
  case (Cons x xs)
  then show ?case
    by (auto split: option.splits dest: exec_call_alloc)
qed

text \<open>\<^verbatim>\<open>Arbitrary\<close> appends its tokens to whatever the slice it got holds.\<close>

lemma Arbitrary_appends:
  assumes "deref (snd (get pick m)) (fst (get pick m)) = Some c0"
  shows "\<exists>c m1. Arbitrary b pick t m = Some (c :: ('f::zero) Arbitrary, m1) \<and>
           Commands c m1 = Some (s c0 @ t)"
proof -
  obtain a m0 where g: "get pick m = (a, m0)" by (cases "get pick m")
  have h: "deref m0 a = Some c0" using assms g by simp
  then have lt: "a < length (heap m0)"
    by (simp add: deref_def split: if_splits)
  have ap: "append_s a t m0 = Some (m0\<lparr>heap := (heap m0)[a := c0\<lparr>s := s c0 @ t\<rparr>]\<rparr>)"
    using h by (simp add: append_s_def)
  show ?thesis
    using g ap lt by (simp add: Arbitrary_def Commands_def deref_def)
qed

text \<open>
  C8, amended. In every memory that a client program reaches, for every builder \<open>b\<close> and
  token lists \<open>t\<close>, \<open>k\<close>, \<open>a\<close>, \<^verbatim>\<open>b.Arbitrary(t...).Keys(k...).Args(a...).Build()\<close> returns
  a command whose tokens are the contents of the slice that \<^verbatim>\<open>get\<close> hands out, followed
  by \<open>t @ k @ a\<close>; they are exactly \<open>t @ k @ a\<close> when the program never applied
  \<^verbatim>\<open>Keys\<close>, \<^verbatim>\<open>Args\<close> or \<^verbatim>\<open>Put\<close> to a command it had already recycled. \<^verbatim>\<open>Keys\<close> and
  \<^verbatim>\<open>Args\<close> applied to any command holding \<open>xs\<close> leave it holding \<open>xs\<close> followed by their
  arguments: tokens are only appended, never reordered or dropped.
\<close>

theorem build_chain_tokens:
  assumes "run d0 calls init_memory = Some m"
  shows "(\<exists>held (c :: ('f::zero) Completed) m1.
            deref (snd (get pick m)) (fst (get pick m)) = Some held \<and>
            build_chain d b pick t k a m = Some (c, m1) \<and>
            Commands c m1 = Some (s held @ t @ k @ a)) \<and>
         (disciplined d0 calls init_memory \<longrightarrow>
            (\<exists>(c :: 'f Completed) m1.
               build_chain d b pick t k a m = Some (c, m1) \<and>
               Commands c m1 = Some (t @ k @ a))) \<and>
         (Commands (c0 :: 'g Arbitrary) m0 = Some xs \<longrightarrow>
            (\<exists>c1 m1. Keys d c0 k m0 = Some (c1, m1) \<and> Commands c1 m1 = Some (xs @ k)) \<and>
            (\<exists>c1 m1. Args c0 a m0 = Some (c1, m1) \<and> Commands c1 m1 = Some (xs @ a)))"
proof -
  have al: "pool_alloc m"
    using run_alloc [OF pool_alloc_init assms] .
  have "fst (get pick m) < length (heap (snd (get pick m)))"
    using get_alloc [OF al] by simp
  then obtain cg where cg: "deref (snd (get pick m)) (fst (get pick m)) = Some cg"
    by (simp add: deref_def)
  obtain c1 :: "'f Arbitrary" and m1
    where 1: "Arbitrary b pick t m = Some (c1, m1)" "Commands c1 m1 = Some (s cg @ t)"
    using Arbitrary_appends [OF cg] by blast
  obtain c2 m2 where 2: "Keys d c1 k m1 = Some (c2, m2)" "Commands c2 m2 = Some ((s cg @ t) @ k)"
    using Keys_tokens [OF 1(2)] by blast
  obtain c3 m3 where 3: "Args c2 a m2 = Some (c3, m3)"
      "Commands c3 m3 = Some (((s cg @ t) @ k) @ a)"
    using Args_tokens [OF 2(2)] by blast
  have bc: "build_chain d b pick t k a m = Some (Build c3, m3)"
    using 1(1) 2(1) 3(1) by (simp add: build_chain_def)
  have tk: "Commands (Build c3) m3 = Some (s cg @ t @ k @ a)"
    using 3(2) by (simp add: Build_def)
  have chain: "\<exists>held (c :: 'f Completed) m1.
      deref (snd (get pick m)) (fst (get pick m)) = Some held \<and>
      build_chain d b pick t k a m = Some (c, m1) \<and> Commands c m1 = Some (s held @ t @ k @ a)"
    using cg bc tk by blast
  have clean: "\<exists>(c :: 'f Completed) m1.
      build_chain d b pick t k a m = Some (c, m1) \<and> Commands c m1 = Some (t @ k @ a)"
    if dis: "disciplined d0 calls init_memory"
  proof -
    have "pool_inv m"
      using run_inv [OF pool_inv_init dis assms] .
    then have "deref (snd (get pick m)) (fst (get pick m)) = Some \<lparr>s = []\<rparr>"
      using get_fresh [of m pick "fst (get pick m)" "snd (get pick m)"] by simp
    then have "s cg = []" using cg by simp
    then show ?thesis using bc tk by auto
  qed
  have steps: "Commands c0 m0 = Some xs \<longrightarrow>
            (\<exists>c1 m1. Keys d c0 k m0 = Some (c1, m1) \<and> Commands c1 m1 = Some (xs @ k)) \<and>
            (\<exists>c1 m1. Args c0 a m0 = Some (c1, m1) \<and> Commands c1 m1 = Some (xs @ a))"
    using Keys_tokens [of c0 m0 xs d k] Args_tokens [of c0 m0 xs a] by blast
  from chain clean steps show ?thesis by blast
qed

text \<open>
  C8 as stated fails: after \<^verbatim>\<open>Put\<close> has recycled a command, \<^verbatim>\<open>Args\<close> on that command
  appends to the pooled slice, and the next chain built on it holds that token before
  \<open>t @ k @ a\<close>.
\<close>

theorem build_chain_tokens_counterexample:
  "run demo_decls stale_calls init_memory = Some stale_memory \<and>
   build_chain demo_decls (NewBuilder 16384) (Some 0) [''MGET''] [''k1'', ''k2''] [''x'']
     stale_memory =
     Some (\<lparr>cs = 0, cf = 0 :: 16 word, ks = 2\<rparr>,
           \<lparr>heap = [\<lparr>s = [''stale'', ''MGET'', ''k1'', ''k2'', ''x'']\<rparr>], pool = []\<rparr>) \<and>
   Commands (\<lparr>cs = 0, cf = 0 :: 16 word, ks = 2\<rparr>)
     \<lparr>heap = [\<lparr>s = [''stale'', ''MGET'', ''k1'', ''k2'', ''x'']\<rparr>], pool = []\<rparr> =
     Some [''stale'', ''MGET'', ''k1'', ''k2'', ''x'']"
  by (simp add: stale_calls_def stale_memory_def demo_decls_def init_memory_def build_chain_def
      Arbitrary_def Keys_def Args_def Build_def Put_def get_def newCommandSlice_def append_s_def
      deref_def NewBuilder_def Commands_def)

theorem build_chain_tokens_witness:
  "run demo_decls demo_calls init_memory = Some demo_memory \<and>
   disciplined demo_decls demo_calls init_memory \<and>
   (\<exists>held (c :: 16 word Completed) m1.
      deref (snd (get (Some 0) demo_memory)) (fst (get (Some 0) demo_memory)) = Some held \<and>
      build_chain demo_decls (NewBuilder 16384) (Some 0) [''MGET''] [''k1'', ''k2''] [''x'']
        demo_memory = Some (c, m1) \<and>
      Commands c m1 = Some (s held @ [''MGET''] @ [''k1'', ''k2''] @ [''x''])) \<and>
   (\<exists>(c :: 16 word Completed) m1.
      build_chain demo_decls (NewBuilder 16384) (Some 0) [''MGET''] [''k1'', ''k2''] [''x'']
        demo_memory = Some (c, m1) \<and>
      Commands c m1 = Some ([''MGET''] @ [''k1'', ''k2''] @ [''x''])) \<and>
   Commands (\<lparr>cs = 1, cf = 0, ks = 16384\<rparr> :: 16 word Arbitrary) demo_memory = Some [''GET'', ''k''] \<and>
   (\<exists>c1 m1. Keys demo_decls (\<lparr>cs = 1, cf = 0, ks = 16384\<rparr> :: 16 word Arbitrary)
        [''k1'', ''k2''] demo_memory = Some (c1, m1) \<and>
      Commands c1 m1 = Some ([''GET'', ''k''] @ [''k1'', ''k2''])) \<and>
   (\<exists>c1 m1. Args (\<lparr>cs = 1, cf = 0, ks = 16384\<rparr> :: 16 word Arbitrary) [''x''] demo_memory =
        Some (c1, m1) \<and>
      Commands c1 m1 = Some ([''GET'', ''k''] @ [''x'']))"
proof -
  have r: "run demo_decls demo_calls init_memory = Some demo_memory"
    by (simp add: demo_calls_def demo_decls_def demo_memory_def init_memory_def Arbitrary_def
        Keys_def Put_def get_def newCommandSlice_def append_s_def deref_def NewBuilder_def)
  have dis: "disciplined demo_decls demo_calls init_memory"
    by (simp add: demo_calls_def demo_decls_def init_memory_def Arbitrary_def
        Keys_def Put_def get_def newCommandSlice_def append_s_def deref_def NewBuilder_def)
  have cmd: "Commands (\<lparr>cs = 1, cf = 0, ks = 16384\<rparr> :: 16 word Arbitrary) demo_memory =
      Some [''GET'', ''k'']"
    by (simp add: Commands_def demo_memory_def deref_def)
  show ?thesis
    using r dis cmd
      build_chain_tokens [OF r, where ?'f = "16 word" and ?'g = "16 word" and d = demo_decls
        and b = "NewBuilder 16384" and pick = "Some 0" and t = "[''MGET'']"
        and k = "[''k1'', ''k2'']" and a = "[''x'']"
        and ?c0.0 = "\<lparr>cs = 1, cf = 0, ks = 16384\<rparr>" and ?m0.0 = demo_memory
        and xs = "[''GET'', ''k'']"]
    by blast
qed

text \<open>The key slot after \<^verbatim>\<open>Keys\<close>: \<^verbatim>\<open>check\<close> folded over the slots of the keys, starting
  from the command's key slot, unless that is \<^verbatim>\<open>NoSlot\<close>.\<close>

lemma Keys_ks_fold:
  assumes "Keys d c keys m = Some (c1, m1)"
  shows "Completed.ks c1 =
     (if Completed.ks c = NoSlot d then Completed.ks c
      else foldl (\<lambda>acc k. check d acc (slot d k)) (Completed.ks c) keys)"
  using assms by (auto simp: Keys_def Let_def split: if_splits bind_splits)

text \<open>
  C9, amended. In every memory, \<^verbatim>\<open>Put\<close> truncates the slice to length zero and then
  pools it. In every memory reached by a client program that never applies \<^verbatim>\<open>Keys\<close>,
  \<^verbatim>\<open>Args\<close> or \<^verbatim>\<open>Put\<close> to a command it has already recycled, the slice that \<^verbatim>\<open>get\<close>
  returns (from the pool or from \<^verbatim>\<open>newCommandSlice\<close>) is empty, and the command that
  \<^verbatim>\<open>Builder.Arbitrary\<close> returns holds its own tokens and nothing before them.
\<close>

theorem pooled_slices_start_empty:
  assumes "run d calls init_memory = Some m" and "disciplined d calls init_memory"
  shows "(deref m0 a = Some c \<longrightarrow>
            Put a m0 = Some (m0\<lparr>heap := (heap m0)[a := \<lparr>s = []\<rparr>], pool := a # pool m0\<rparr>)) \<and>
         deref (snd (get pick m)) (fst (get pick m)) = Some \<lparr>s = []\<rparr> \<and>
         (\<exists>(c1 :: ('f::zero) Arbitrary) m1.
            Arbitrary b pick t m = Some (c1, m1) \<and> Commands c1 m1 = Some t)"
proof -
  have inv: "pool_inv m"
    using run_inv [OF pool_inv_init assms(2,1)] .
  have put: "deref m0 a = Some c \<longrightarrow>
      Put a m0 = Some (m0\<lparr>heap := (heap m0)[a := \<lparr>s = []\<rparr>], pool := a # pool m0\<rparr>)"
    by (cases c) (simp add: Put_def)
  have got: "deref (snd (get pick m)) (fst (get pick m)) = Some \<lparr>s = []\<rparr>"
    using get_fresh [OF inv, of pick "fst (get pick m)" "snd (get pick m)"] by simp
  have arb: "\<exists>(c1 :: 'f Arbitrary) m1.
      Arbitrary b pick t m = Some (c1, m1) \<and> Commands c1 m1 = Some t"
    using Arbitrary_tokens [OF inv] by blast
  from put got arb show ?thesis by blast
qed

text \<open>
  C9 as stated fails: \<^verbatim>\<open>Args\<close> on a command that \<^verbatim>\<open>Put\<close> has recycled appends to the
  pooled slice; \<^verbatim>\<open>get\<close> then hands out a slice that is not empty, and the command that
  \<^verbatim>\<open>Builder.Arbitrary\<close> builds on it begins with the leftover token.
\<close>

theorem pooled_slices_start_empty_counterexample:
  "run demo_decls stale_calls init_memory = Some stale_memory \<and>
   deref (snd (get (Some 0) stale_memory)) (fst (get (Some 0) stale_memory)) =
     Some \<lparr>s = [''stale'']\<rparr> \<and>
   Arbitrary (NewBuilder 0) (Some 0) [''DEL'', ''k''] stale_memory =
     Some (\<lparr>cs = 0, cf = 0 :: 16 word, ks = 0\<rparr>,
           \<lparr>heap = [\<lparr>s = [''stale'', ''DEL'', ''k'']\<rparr>], pool = []\<rparr>)"
  by (simp add: stale_calls_def stale_memory_def demo_decls_def init_memory_def
      Arbitrary_def Args_def Put_def get_def newCommandSlice_def append_s_def
      deref_def NewBuilder_def)

theorem pooled_slices_start_empty_witness:
  "run demo_decls demo_calls init_memory = Some demo_memory \<and>
   disciplined demo_decls demo_calls init_memory \<and>
   deref demo_memory 1 = Some \<lparr>s = [''GET'', ''k'']\<rparr> \<and>
   Put 1 demo_memory =
     Some (demo_memory\<lparr>heap := (heap demo_memory)[1 := \<lparr>s = []\<rparr>], pool := 1 # pool demo_memory\<rparr>) \<and>
   deref (snd (get (Some 0) demo_memory)) (fst (get (Some 0) demo_memory)) = Some \<lparr>s = []\<rparr> \<and>
   (\<exists>(c1 :: 16 word Arbitrary) m1.
      Arbitrary (NewBuilder 0) (Some 0) [''DEL'', ''k''] demo_memory = Some (c1, m1) \<and>
      Commands c1 m1 = Some [''DEL'', ''k''])"
proof -
  have r: "run demo_decls demo_calls init_memory = Some demo_memory"
    by (simp add: demo_calls_def demo_decls_def demo_memory_def init_memory_def Arbitrary_def
        Keys_def Put_def get_def newCommandSlice_def append_s_def deref_def NewBuilder_def)
  have dis: "disciplined demo_decls demo_calls init_memory"
    by (simp add: demo_calls_def demo_decls_def init_memory_def Arbitrary_def
        Keys_def Put_def get_def newCommandSlice_def append_s_def deref_def NewBuilder_def)
  have d: "deref demo_memory 1 = Some \<lparr>s = [''GET'', ''k'']\<rparr>"
    by (simp add: demo_memory_def deref_def)
  show ?thesis
    using r dis d
      pooled_slices_start_empty [OF r dis, where ?'f = "16 word" and ?m0.0 = demo_memory
        and a = 1 and c = "\<lparr>s = [''GET'', ''k'']\<rparr>" and pick = "Some 0"
        and b = "NewBuilder 0" and t = "[''DEL'', ''k'']"]
    by blast
qed

section \<open>Properties of the dedicated client\<close>

text \<open>With commands to send, \<^verbatim>\<open>DoMulti\<close> sends them on the wire and then recycles each.\<close>

lemma DoMulti_nonempty:
  "multi \<noteq> [] \<Longrightarrow>
     DoMulti c multi st =
       (fst (wire c multi st), foldl (\<lambda>st2 x. cmd c x st2) (snd (wire c multi st)) multi)"
  by (simp add: DoMulti_def split_beta)

text \<open>
  C10. For every dedicated client \<open>c\<close>, \<^verbatim>\<open>c.DoMulti\<close> with an empty command list returns
  \<^verbatim>\<open>nil\<close> and the state it was given, whatever the client's wire and builder would do
  to that state: nothing is sent on the wire and nothing is recycled.
\<close>

theorem DoMulti_empty:
  "DoMulti c [] st = (None, st)"
  by (simp add: DoMulti_def)

section \<open>Properties of the pipeline\<close>

lemma pipe_inv_init: "pipe_inv init_pipeline"
  by (simp add: pipe_inv_def init_pipeline_def)

lemma fault_inv: "pipe_inv p \<Longrightarrow> pipe_inv (fault p)"
  by (simp add: pipe_inv_def fault_def comp_def)

lemma submit_inv: "pipe_inv p \<Longrightarrow> pipe_inv (submit c p)"
  by (cases "status p") (auto simp: pipe_inv_def submit_def)

lemma writer_inv: "pipe_inv p \<Longrightarrow> pipe_inv (writer n p)"
proof -
  assume a: "pipe_inv p"
  have "map entry_id (take n (write_queue p)) @ map entry_id (drop n (write_queue p)) =
      map entry_id (write_queue p)"
    by (metis append_take_drop_id map_append)
  then show ?thesis using a by (simp add: pipe_inv_def writer_def)
qed

lemma receive_frame_inv: "pipe_inv p \<Longrightarrow> pipe_inv (receive_frame msg p)"
  by (cases msg; cases "fifo p")
     (auto simp: receive_frame_def fault_inv, auto simp: pipe_inv_def)

lemma pipe_step_inv: "pipe_inv p \<Longrightarrow> pipe_inv (pipe_step p e)"
  by (cases e) (auto simp: fault_inv submit_inv writer_inv receive_frame_inv, auto simp: pipe_inv_def)

lemma foldl_pipe_inv: "pipe_inv p \<Longrightarrow> pipe_inv (foldl pipe_step p evs)"
  by (induction evs arbitrary: p) (auto simp: pipe_step_inv)

text \<open>
  C3. On every pipeline, after any sequence of events, the completions delivered so far
  are, in order, those of the first entries submitted: an entry submitted before another
  is completed before it, and each entry at most once.
\<close>

theorem completion_order:
  "map fst (completed (pipe_run evs)) =
     take (length (completed (pipe_run evs))) (submitted (pipe_run evs)) \<and>
   length (completed (pipe_run evs)) \<le> length (submitted (pipe_run evs)) \<and>
   distinct (submitted (pipe_run evs))"
proof -
  let ?p = "pipe_run evs"
  have inv: "pipe_inv ?p"
    unfolding pipe_run_def by (rule foldl_pipe_inv [OF pipe_inv_init])
  then have eq: "map fst (completed ?p) @ map entry_id (fifo ?p) @ map entry_id (write_queue ?p) =
      submitted ?p"
    and up: "submitted ?p = [0..<length (submitted ?p)]"
    by (simp_all add: pipe_inv_def)
  have len: "length (completed ?p) \<le> length (submitted ?p)"
    by (metis eq length_append length_map le_add1)
  have tk: "map fst (completed ?p) = take (length (completed ?p)) (submitted ?p)"
    by (metis eq append_eq_conv_conj length_map)
  have d: "distinct (submitted ?p)"
    by (metis up distinct_upt)
  from tk len d show ?thesis by blast
qed

section \<open>Properties of the cache\<close>

subsection \<open>Single flight\<close>

lemma cache_inv_init: "cache_inv init_cache"
  by (simp add: cache_inv_def init_cache_def live_def)

lemma live_issue:
  "live (issue c k f ttl st) =
     live st @ [\<lparr>fetch_key = k, fetch_fp = f, issuer = c, fetch_ttl = ttl, detached = None\<rparr>]"
  by (simp add: live_def issue_def)

lemma issue_inv:
  assumes "cache_inv st" and "\<forall>e. entries st (k, f) = Some e \<longrightarrow> state e \<noteq> Pending"
  shows "cache_inv (issue c k f ttl st)"
proof -
  have no: "(k, f) \<notin> fetch_slot ` set (live st)"
    using assms unfolding cache_inv_def by force
  have ent: "entries (issue c k f ttl st) =
      (entries st)((k, f) \<mapsto> \<lparr>state = Pending, cached = Null, expires_at = 0, waiters = []\<rparr>)"
    by (simp add: issue_def)
  show ?thesis
    unfolding cache_inv_def live_issue ent
    using assms(1) no by (auto simp: cache_inv_def fetch_slot_def)
qed

lemma do_cache_inv:
  assumes "cache_inv st"
  shows "cache_inv (do_cache c k f ttl now st)"
proof (cases "entries st (k, f)")
  case None
  then show ?thesis using assms by (simp add: do_cache_def issue_inv)
next
  case (Some e)
  show ?thesis
  proof (cases "state e = Ready \<and> now < expires_at e")
    case True
    then show ?thesis using assms Some by (simp add: do_cache_def cache_inv_def live_def)
  next
    case False
    show ?thesis
    proof (cases "state e = Pending")
      case True
      then have "do_cache c k f ttl now st =
          st\<lparr>entries := (entries st)((k, f) \<mapsto> e\<lparr>waiters := waiters e @ [c]\<rparr>)\<rparr>"
        using Some False by (simp add: do_cache_def)
      then show ?thesis
        using assms True Some by (auto simp: cache_inv_def live_def)
    next
      case notp: False
      have "do_cache c k f ttl now st = issue c k f ttl st"
        using Some False notp by (auto simp: do_cache_def)
      moreover have "\<forall>e. entries st (k, f) = Some e \<longrightarrow> state e \<noteq> Pending"
        using Some notp by simp
      ultimately show ?thesis using assms by (simp add: issue_inv)
    qed
  qed
qed

lemma head_inv:
  assumes "cache_inv st" and "outstanding st = r # rest"
  shows "set (filter (\<lambda>r. detached r = None) rest) \<subseteq> set (live st)"
    and "distinct (map fetch_slot (filter (\<lambda>r. detached r = None) rest))"
    and "detached r = None \<Longrightarrow>
           fetch_slot r \<notin> fetch_slot ` set (filter (\<lambda>r. detached r = None) rest)"
    and "detached r = None \<Longrightarrow> \<exists>e. entries st (fetch_slot r) = Some e \<and> state e = Pending"
  using assms by (cases "detached r"; auto simp: cache_inv_def live_def)+

lemma cache_inv_rest:
  assumes "cache_inv st" and "outstanding st = r # rest"
    and "outstanding st1 = rest"
    and "\<And>kf. (detached r \<noteq> None \<or> kf \<noteq> fetch_slot r) \<Longrightarrow> entries st1 kf = entries st kf"
  shows "cache_inv st1"
proof -
  note h = head_inv [OF assms(1,2)]
  have l1: "live st1 = filter (\<lambda>r. detached r = None) rest"
    by (simp add: live_def assms(3))
  have "\<exists>e. entries st1 (fetch_slot x) = Some e \<and> state e = Pending"
    if "x \<in> set (live st1)" for x
  proof -
    have xin: "x \<in> set (live st)" using that h(1) l1 by auto
    have "detached r \<noteq> None \<or> fetch_slot x \<noteq> fetch_slot r"
      using h(3) that l1 by (cases "detached r") (force simp: image_iff)+
    then have "entries st1 (fetch_slot x) = entries st (fetch_slot x)"
      by (rule assms(4))
    then show ?thesis using assms(1) xin by (simp add: cache_inv_def)
  qed
  then show ?thesis
    using h(2) l1 by (simp add: cache_inv_def)
qed

lemma server_reply_inv:
  assumes "cache_inv st"
  shows "cache_inv (server_reply msg hint now st)"
proof (cases "outstanding st")
  case Nil
  then show ?thesis using assms by (simp add: server_reply_def)
next
  case (Cons r rest)
  show ?thesis
  proof (rule cache_inv_rest [OF assms Cons])
    show "outstanding (server_reply msg hint now st) = rest"
      using Cons by (simp add: server_reply_def split: option.splits)
  next
    fix kf assume "detached r \<noteq> None \<or> kf \<noteq> fetch_slot r"
    then show "entries (server_reply msg hint now st) kf = entries st kf"
      using Cons by (auto simp: server_reply_def fetch_slot_def split: option.splits)
  qed
qed

lemma server_error_inv:
  assumes "cache_inv st"
  shows "cache_inv (server_error err st)"
proof (cases "outstanding st")
  case Nil
  then show ?thesis using assms by (simp add: server_error_def)
next
  case (Cons r rest)
  show ?thesis
  proof (rule cache_inv_rest [OF assms Cons])
    show "outstanding (server_error err st) = rest"
      using Cons by (simp add: server_error_def split: option.splits)
  next
    fix kf assume "detached r \<noteq> None \<or> kf \<noteq> fetch_slot r"
    then show "entries (server_error err st) kf = entries st kf"
      using Cons by (auto simp: server_error_def fetch_slot_def split: option.splits)
  qed
qed

lemma detach_slot [simp]: "fetch_slot (detach st r) = fetch_slot r"
  by (simp add: detach_def fetch_slot_def split: option.splits)

lemma live_invalidate:
  assumes "cache_inv st"
  shows "live (invalidate keys st) =
     filter (\<lambda>r. \<not> invalidated_key keys (fetch_key r)) (live st)"
proof -
  have d: "detached (detach st r) \<noteq> None" if rin: "r \<in> set (outstanding st)" for r
  proof (cases "detached r")
    case None
    then obtain e where "entries st (fetch_slot r) = Some e" "state e = Pending"
      using assms rin by (auto simp: cache_inv_def live_def)
    then show ?thesis using None by (simp add: detach_def fetch_slot_def)
  next
    case (Some e)
    then show ?thesis by (simp add: detach_def split: option.splits)
  qed
  have "filter (\<lambda>r. detached r = None)
          (map (\<lambda>r. if invalidated_key keys (fetch_key r) then detach st r else r) xs) =
        filter (\<lambda>r. \<not> invalidated_key keys (fetch_key r)) (filter (\<lambda>r. detached r = None) xs)"
    if "set xs \<subseteq> set (outstanding st)" for xs
    using that by (induction xs) (use d in force)+
  then show ?thesis
    by (simp add: live_def invalidate_def)
qed

lemma invalidate_inv:
  assumes "cache_inv st"
  shows "cache_inv (invalidate keys st)"
proof -
  have ent: "entries (invalidate keys st) (fetch_slot r) = entries st (fetch_slot r)"
    if "\<not> invalidated_key keys (fetch_key r)" for r
    using that by (simp add: invalidate_def fetch_slot_def)
  show ?thesis
    unfolding cache_inv_def live_invalidate [OF assms]
    using assms by (auto simp: cache_inv_def ent distinct_map_filter)
qed

lemma cache_step_inv: "cache_inv st \<Longrightarrow> cache_inv (cache_step st e)"
  by (cases e) (simp_all add: do_cache_inv server_reply_inv server_error_inv invalidate_inv)

lemma foldl_cache_inv: "cache_inv st \<Longrightarrow> cache_inv (foldl cache_step st evs)"
  by (induction evs arbitrary: st) (simp_all add: cache_step_inv)

lemma distinct_map_filter_le1:
  "distinct (map g xs) \<Longrightarrow> length (filter (\<lambda>x. g x = y) xs) \<le> Suc 0"
  by (induction xs) (auto simp: filter_empty_conv image_iff)

lemma slot_live_step:
  assumes "slot_live k f st" and "undisturbed k f st (e # evs)"
  shows "slot_live k f (cache_step st e)"
proof (cases e)
  case (DoCache c k1 f1 ttl now)
  then show ?thesis
    using assms(1) by (auto simp: slot_live_def do_cache_def issue_def split: option.splits)
next
  case (ServerReply msg hint now)
  then show ?thesis
    using assms(1)
    by (cases "outstanding st") (auto simp: slot_live_def server_reply_def split: option.splits)
next
  case (ServerError err)
  then show ?thesis
    using assms(1)
    by (cases "outstanding st") (auto simp: slot_live_def server_error_def split: option.splits)
next
  case (Invalidate keys)
  show ?thesis
  proof (cases "invalidated_key keys k")
    case True
    then have z: "in_flight_live st k f = 0" using assms(2) Invalidate by simp
    have none: "\<not> (fetch_key r = k \<and> fetch_fp r = f)" if "r \<in> set (outstanding st)" for r
    proof
      assume kf: "fetch_key r = k \<and> fetch_fp r = f"
      then have "detached r = None" using assms(1) that by (simp add: slot_live_def)
      then have "r \<in> set (filter (\<lambda>r. fetch_key r = k \<and> fetch_fp r = f \<and> detached r = None)
          (outstanding st))"
        using that kf by simp
      moreover have "filter (\<lambda>r. fetch_key r = k \<and> fetch_fp r = f \<and> detached r = None)
          (outstanding st) = []"
        using z by (simp add: in_flight_live_def)
      ultimately show False by simp
    qed
    have keep: "fetch_key (detach st r) = fetch_key r \<and> fetch_fp (detach st r) = fetch_fp r" for r
      by (simp add: detach_def split: option.splits)
    show ?thesis
    proof -
      have "\<not> (fetch_key r = k \<and> fetch_fp r = f)"
        if rin: "r \<in> set (outstanding (invalidate keys st))" for r
      proof -
        obtain r0 where r0: "r0 \<in> set (outstanding st)"
          and r: "r = (if invalidated_key keys (fetch_key r0) then detach st r0 else r0)"
          using rin by (auto simp: invalidate_def)
        have "fetch_key r = fetch_key r0 \<and> fetch_fp r = fetch_fp r0"
          using r keep by simp
        then show ?thesis using none [OF r0] by simp
      qed
      then show ?thesis using Invalidate by (auto simp: slot_live_def)
    qed
  next
    case False
    then show ?thesis
    proof -
      have keep: "fetch_key (detach st r) = fetch_key r" for r
        by (simp add: detach_def split: option.splits)
      show ?thesis
        using Invalidate assms(1) False by (auto simp: slot_live_def invalidate_def keep)
    qed
  qed
qed

lemma undisturbed_tail:
  "undisturbed k f st (e # evs) \<Longrightarrow> undisturbed k f (cache_step st e) evs"
  by (cases e) simp_all

lemma slot_live_foldl:
  "slot_live k f st \<Longrightarrow> undisturbed k f st evs \<Longrightarrow> slot_live k f (foldl cache_step st evs)"
proof (induction evs arbitrary: st)
  case Nil
  then show ?case by simp
next
  case (Cons e evs)
  have "slot_live k f (cache_step st e)"
    using slot_live_step [OF Cons.prems] .
  moreover have "undisturbed k f (cache_step st e) evs"
    using undisturbed_tail [OF Cons.prems(2)] .
  ultimately show ?case using Cons.IH by simp
qed

lemma in_flight_live_le: "cache_inv st \<Longrightarrow> in_flight_live st k f \<le> 1"
proof -
  assume "cache_inv st"
  then have d: "distinct (map fetch_slot (live st))" by (simp add: cache_inv_def)
  have "filter (\<lambda>r. fetch_key r = k \<and> fetch_fp r = f \<and> detached r = None) (outstanding st) =
      filter (\<lambda>r. fetch_slot r = (k, f)) (live st)"
    unfolding live_def filter_filter by (rule filter_cong) (auto simp: fetch_slot_def)
  then have "in_flight_live st k f = length (filter (\<lambda>r. fetch_slot r = (k, f)) (live st))"
    by (simp add: in_flight_live_def)
  then show ?thesis using distinct_map_filter_le1 [OF d, of "(k, f)"] by simp
qed

text \<open>
  C2, amended. For every cache key \<open>k\<close> and fingerprint \<open>f\<close>, after any sequence of calls,
  replies, errors and invalidations, at most one fetch in flight for \<open>(k, f)\<close> belongs to
  an entry that has not been invalidated; and as long as no invalidation push for \<open>k\<close>
  arrives while a fetch for \<open>(k, f)\<close> is pending, at most one fetch is in flight for
  \<open>(k, f)\<close> at all, however many callers request it.
\<close>

theorem single_flight_live:
  "in_flight_live (cache_run evs) k f \<le> 1 \<and>
   (undisturbed k f init_cache evs \<longrightarrow> in_flight (cache_run evs) k f \<le> 1)"
proof -
  have inv: "cache_inv (cache_run evs)"
    unfolding cache_run_def by (rule foldl_cache_inv [OF cache_inv_init])
  have 1: "in_flight_live (cache_run evs) k f \<le> 1"
    by (rule in_flight_live_le [OF inv])
  have 2: "in_flight (cache_run evs) k f \<le> 1" if u: "undisturbed k f init_cache evs"
  proof -
    have "slot_live k f (cache_run evs)"
      unfolding cache_run_def
      by (rule slot_live_foldl [OF _ u]) (simp add: slot_live_def init_cache_def)
    then have "filter (\<lambda>r. fetch_key r = k \<and> fetch_fp r = f) (outstanding (cache_run evs)) =
        filter (\<lambda>r. fetch_key r = k \<and> fetch_fp r = f \<and> detached r = None)
          (outstanding (cache_run evs))"
      unfolding slot_live_def by (intro filter_cong) auto
    then have "in_flight (cache_run evs) k f = in_flight_live (cache_run evs) k f"
      by (simp add: in_flight_def in_flight_live_def)
    then show ?thesis using 1 by simp
  qed
  from 1 2 show ?thesis by blast
qed

text \<open>
  C2 as stated fails: an invalidation of \<open>k\<close> while the fetch for \<open>(k, f)\<close> is pending
  removes the pending entry, and the next \<^verbatim>\<open>DoCache\<close> for \<open>(k, f)\<close> issues a second request
  while the first is still unanswered.
\<close>

theorem single_flight_counterexample:
  "in_flight (cache_run race_trace) ''k'' 7 = 2"
  by (simp add: race_trace_def cache_run_def init_cache_def do_cache_def issue_def
      invalidate_def invalidated_key_def detach_def in_flight_def)

theorem single_flight_live_witness:
  "undisturbed ''k'' 7 init_cache other_key_trace \<and>
   in_flight_live (cache_run other_key_trace) ''k'' 7 \<le> 1 \<and>
   in_flight (cache_run other_key_trace) ''k'' 7 \<le> 1"
proof -
  have h: "undisturbed ''k'' 7 init_cache other_key_trace"
    by (simp add: other_key_trace_def init_cache_def do_cache_def issue_def
        invalidate_def invalidated_key_def detach_def in_flight_live_def server_reply_def
        deadline_def)
  show ?thesis
    using h single_flight_live [of other_key_trace "''k''" 7] by simp
qed

subsection \<open>Hit ratio\<close>

lemma called_append: "called (xs @ ys) = called xs @ called ys"
  by (induction xs rule: called.induct) simp_all

lemma callers_append: "callers (xs @ ys) = callers xs @ callers ys"
  by (induction xs rule: callers.induct) simp_all

lemma steady_inv_init: "steady_inv t0 ttl [] init_cache"
  by (simp add: steady_inv_def init_cache_def misses_def hits_def waiting_def)

lemma live_all: "\<forall>r \<in> set (outstanding st). detached r = None \<Longrightarrow> live st = outstanding st"
  by (simp add: live_def)

lemma waiting_of_other:
  "fetch_slot r \<noteq> kf \<Longrightarrow> waiting_of (st\<lparr>entries := (entries st)(kf := v)\<rparr>) r = waiting_of st r"
  by (simp add: waiting_of_def)

lemma sum_waiting_other:
  assumes "kf \<notin> fetch_slot ` set xs" and "entries st1 = (entries st)(kf := v)"
  shows "sum_list (map (waiting_of st1) xs) = sum_list (map (waiting_of st) xs)"
proof -
  have "waiting_of st1 r = waiting_of st r" if "r \<in> set xs" for r
    using that assms by (auto simp: waiting_of_def)
  then show ?thesis by (metis (no_types, lifting) map_eq_conv)
qed

lemma sum_waiting_one:
  assumes "distinct (map fetch_slot xs)" and "kf \<in> fetch_slot ` set xs"
    and "entries st kf = Some e"
    and "entries st1 = (entries st)(kf \<mapsto> e\<lparr>waiters := waiters e @ [c]\<rparr>)"
  shows "sum_list (map (waiting_of st1) xs) = Suc (sum_list (map (waiting_of st) xs))"
  using assms(1,2)
proof (induction xs)
  case Nil
  then show ?case by simp
next
  case (Cons x xs)
  show ?case
  proof (cases "fetch_slot x = kf")
    case True
    then have "kf \<notin> fetch_slot ` set xs" using Cons.prems(1) by auto
    then have "sum_list (map (waiting_of st1) xs) = sum_list (map (waiting_of st) xs)"
      using sum_waiting_other [of kf xs st1 st] assms(4) by simp
    moreover have "waiting_of st1 x = Suc (waiting_of st x)"
      using True assms(3,4) by (simp add: waiting_of_def)
    ultimately show ?thesis by simp
  next
    case False
    then have "kf \<in> fetch_slot ` set xs" using Cons.prems(2) by auto
    then have "sum_list (map (waiting_of st1) xs) = Suc (sum_list (map (waiting_of st) xs))"
      using Cons by simp
    moreover have "waiting_of st1 x = waiting_of st x"
      using False assms(4) by (simp add: waiting_of_def)
    ultimately show ?thesis by simp
  qed
qed

lemma miss_hit_append:
  "misses (st\<lparr>returned := returned st @ xs\<rparr>) = misses st + length (filter is_miss xs)"
  "hits (st\<lparr>returned := returned st @ xs\<rparr>) = hits st + length (filter is_hit xs)"
  by (simp_all add: misses_def hits_def)

lemma filter_waiters:
  "filter is_miss (map (\<lambda>w. (w, Result msg True)) ws) = []"
  "length (filter is_hit (map (\<lambda>w. (w, Result msg True)) ws)) = length ws"
  by (induction ws) simp_all

lemma counts_entries_update [simp]:
  "misses (st\<lparr>entries := m\<rparr>) = misses st" "hits (st\<lparr>entries := m\<rparr>) = hits st"
  "misses (st\<lparr>outstanding := xs\<rparr>) = misses st" "hits (st\<lparr>outstanding := xs\<rparr>) = hits st"
  by (simp_all add: misses_def hits_def)

lemma waiting_of_returned [simp]: "waiting_of (st\<lparr>returned := xs\<rparr>) = waiting_of st"
  by (rule ext) (simp add: waiting_of_def)

lemma steady_do_cache:
  assumes ci: "cache_inv st" and si: "steady_inv t0 ttl evs st" and now: "now < t0 + ttl"
  shows "steady_inv t0 ttl (evs @ [DoCache c k f ttl now]) (do_cache c k f ttl now st)"
proof -
  from si have s1: "\<forall>r \<in> set (outstanding st). detached r = None \<and> fetch_ttl r = ttl"
    and s3: "\<And>kf. (entries st kf \<noteq> None) = (kf \<in> set (called evs))"
    and s4: "\<And>kf e. entries st kf = Some e \<Longrightarrow>
        (state e = Pending \<and> kf \<in> fetch_slot ` set (outstanding st)) \<or>
        (state e = Ready \<and> t0 + ttl \<le> expires_at e)"
    and s5: "misses st + length (outstanding st) = card (set (called evs))"
    and s6: "hits st + misses st + length (outstanding st) + waiting st = length (called evs)"
    unfolding steady_inv_def by blast+
  have lv: "live st = outstanding st" using s1 by (simp add: live_all)
  have dist: "distinct (map fetch_slot (outstanding st))"
    using ci lv by (simp add: cache_inv_def)
  have has: "\<And>r. r \<in> set (outstanding st) \<Longrightarrow> entries st (fetch_slot r) \<noteq> None"
    using ci lv by (auto simp: cache_inv_def)
  have cl: "called (evs @ [DoCache c k f ttl now]) = called evs @ [(k, f)]"
    by (simp add: called_append)
  show ?thesis
  proof (cases "entries st (k, f)")
    case None
    let ?r = "\<lparr>fetch_key = k, fetch_fp = f, issuer = c, fetch_ttl = ttl, detached = None\<rparr>"
    let ?e = "\<lparr>state = Pending, cached = Null, expires_at = 0, waiters = []\<rparr>"
    let ?st = "st\<lparr>entries := (entries st)((k, f) \<mapsto> ?e), outstanding := outstanding st @ [?r]\<rparr>"
    have dc: "do_cache c k f ttl now st = ?st"
      using None by (simp add: do_cache_def issue_def)
    have new: "(k, f) \<notin> set (called evs)" using s3 [of "(k, f)"] None by simp
    have notin: "(k, f) \<notin> fetch_slot ` set (outstanding st)"
      using has None by force
    have w: "waiting ?st = waiting st"
    proof -
      have "sum_list (map (waiting_of ?st) (outstanding st)) =
          sum_list (map (waiting_of st) (outstanding st))"
        by (rule sum_waiting_other [OF notin]) simp
      moreover have "waiting_of ?st ?r = 0"
        by (simp add: waiting_of_def fetch_slot_def)
      ultimately show ?thesis by (simp add: waiting_def)
    qed
    have a1: "\<forall>r \<in> set (outstanding ?st). detached r = None \<and> fetch_ttl r = ttl"
      using s1 by auto
    have a3: "\<forall>kf. (entries ?st kf \<noteq> None) = (kf \<in> set (called evs @ [(k, f)]))"
      using s3 by auto
    have a4: "\<forall>kf e. entries ?st kf = Some e \<longrightarrow>
        (state e = Pending \<and> kf \<in> fetch_slot ` set (outstanding ?st)) \<or>
        (state e = Ready \<and> t0 + ttl \<le> expires_at e)"
      using s4 by (auto simp: fetch_slot_def image_iff)
    have a5: "misses ?st + length (outstanding ?st) = card (set (called evs @ [(k, f)]))"
      using s5 new by simp
    have a6: "hits ?st + misses ?st + length (outstanding ?st) + waiting ?st =
        length (called evs @ [(k, f)])"
      using s6 w by simp
    show ?thesis
      unfolding dc cl steady_inv_def using a1 a3 a4 a5 a6 by blast
  next
    case (Some e)
    have old: "(k, f) \<in> set (called evs)" using s3 [of "(k, f)"] Some by simp
    then have card: "card (set (called evs @ [(k, f)])) = card (set (called evs))"
      by (simp add: insert_absorb)
    from s4 [OF Some] show ?thesis
    proof
      assume p: "state e = Pending \<and> (k, f) \<in> fetch_slot ` set (outstanding st)"
      let ?st = "st\<lparr>entries := (entries st)((k, f) \<mapsto> e\<lparr>waiters := waiters e @ [c]\<rparr>)\<rparr>"
      have dc: "do_cache c k f ttl now st = ?st"
        using Some p by (simp add: do_cache_def)
      have w: "waiting ?st = Suc (waiting st)"
        unfolding waiting_def using sum_waiting_one [OF dist _ Some, of ?st c] p by simp
      have a1: "\<forall>r \<in> set (outstanding ?st). detached r = None \<and> fetch_ttl r = ttl"
        using s1 by auto
      have a3: "\<forall>kf. (entries ?st kf \<noteq> None) = (kf \<in> set (called evs @ [(k, f)]))"
        using s3 old by auto
      have a4: "\<forall>kf e. entries ?st kf = Some e \<longrightarrow>
          (state e = Pending \<and> kf \<in> fetch_slot ` set (outstanding ?st)) \<or>
          (state e = Ready \<and> t0 + ttl \<le> expires_at e)"
        using s4 p by auto
      have a5: "misses ?st + length (outstanding ?st) = card (set (called evs @ [(k, f)]))"
        using s5 card by simp
      have a6: "hits ?st + misses ?st + length (outstanding ?st) + waiting ?st =
          length (called evs @ [(k, f)])"
        using s6 w by simp
      show ?thesis
        unfolding dc cl steady_inv_def using a1 a3 a4 a5 a6 by blast
    next
      assume r: "state e = Ready \<and> t0 + ttl \<le> expires_at e"
      let ?st = "st\<lparr>returned := returned st @ [(c, Result (cached e) True)]\<rparr>"
      have dc: "do_cache c k f ttl now st = ?st"
        using Some r now by (simp add: do_cache_def)
      have m: "misses ?st = misses st" and h: "hits ?st = Suc (hits st)"
        by (simp_all add: miss_hit_append)
      have w: "waiting ?st = waiting st"
        by (simp add: waiting_def)
      have a1: "\<forall>r \<in> set (outstanding ?st). detached r = None \<and> fetch_ttl r = ttl"
        using s1 by auto
      have a3: "\<forall>kf. (entries ?st kf \<noteq> None) = (kf \<in> set (called evs @ [(k, f)]))"
        using s3 old by auto
      have a4: "\<forall>kf e. entries ?st kf = Some e \<longrightarrow>
          (state e = Pending \<and> kf \<in> fetch_slot ` set (outstanding ?st)) \<or>
          (state e = Ready \<and> t0 + ttl \<le> expires_at e)"
        using s4 by auto
      have a5: "misses ?st + length (outstanding ?st) = card (set (called evs @ [(k, f)]))"
        using s5 card m by simp
      have a6: "hits ?st + misses ?st + length (outstanding ?st) + waiting ?st =
          length (called evs @ [(k, f)])"
        using s6 w m h by simp
      show ?thesis
        unfolding dc cl steady_inv_def using a1 a3 a4 a5 a6 by blast
    qed
  qed
qed

lemma deadline_steady:
  assumes "t0 \<le> now" and "case hint of None \<Rightarrow> True | Some h \<Rightarrow> ttl \<le> h"
  shows "t0 + ttl \<le> deadline now ttl hint"
  using assms by (cases hint) (simp_all add: deadline_def)

lemma steady_server_reply:
  assumes ci: "cache_inv st" and si: "steady_inv t0 ttl evs st" and t0: "t0 \<le> now"
    and hint: "case hint of None \<Rightarrow> True | Some h \<Rightarrow> ttl \<le> h"
  shows "steady_inv t0 ttl (evs @ [ServerReply msg hint now]) (server_reply msg hint now st)"
proof -
  from si have s1: "\<forall>r \<in> set (outstanding st). detached r = None \<and> fetch_ttl r = ttl"
    and s3: "\<And>kf. (entries st kf \<noteq> None) = (kf \<in> set (called evs))"
    and s4: "\<And>kf e. entries st kf = Some e \<Longrightarrow>
        (state e = Pending \<and> kf \<in> fetch_slot ` set (outstanding st)) \<or>
        (state e = Ready \<and> t0 + ttl \<le> expires_at e)"
    and s5: "misses st + length (outstanding st) = card (set (called evs))"
    and s6: "hits st + misses st + length (outstanding st) + waiting st = length (called evs)"
    unfolding steady_inv_def by blast+
  have lv: "live st = outstanding st" using s1 by (simp add: live_all)
  have dist: "distinct (map fetch_slot (outstanding st))"
    using ci lv by (simp add: cache_inv_def)
  have cl: "called (evs @ [ServerReply msg hint now]) = called evs"
    by (simp add: called_append)
  show ?thesis
  proof (cases "outstanding st")
    case Nil
    then have "server_reply msg hint now st = st" by (simp add: server_reply_def)
    then show ?thesis using si unfolding steady_inv_def cl by simp
  next
    case (Cons r rest)
    have dr: "detached r = None" and tr: "fetch_ttl r = ttl" using s1 Cons by auto
    obtain e where e: "entries st (fetch_slot r) = Some e" and pe: "state e = Pending"
      using ci lv Cons by (auto simp: cache_inv_def)
    let ?kf = "(fetch_key r, fetch_fp r)"
    let ?new = "\<lparr>state = Ready, cached = msg, expires_at = deadline now ttl hint, waiters = []\<rparr>"
    let ?st = "st\<lparr>entries := (entries st)(?kf \<mapsto> ?new), outstanding := rest,
        returned := returned st @ (issuer r, Result msg False) #
           map (\<lambda>w. (w, Result msg True)) (waiters e)\<rparr>"
    have kf: "fetch_slot r = ?kf" by (simp add: fetch_slot_def)
    have sr: "server_reply msg hint now st = ?st"
      using Cons dr tr e pe kf by (simp add: server_reply_def)
    have notin: "?kf \<notin> fetch_slot ` set rest"
      using dist Cons kf by auto
    have wst: "waiting st = length (waiters e) + sum_list (map (waiting_of st) rest)"
      using Cons e by (simp add: waiting_def waiting_of_def)
    have "sum_list (map (waiting_of ?st) rest) = sum_list (map (waiting_of st) rest)"
      by (rule sum_waiting_other [OF notin]) simp
    then have w: "waiting ?st + length (waiters e) = waiting st"
      using wst by (simp add: waiting_def)
    have m: "misses ?st = Suc (misses st)"
      by (simp add: misses_def filter_waiters)
    have h: "hits ?st = hits st + length (waiters e)"
      by (simp add: hits_def filter_waiters)
    have a1: "\<forall>r \<in> set (outstanding ?st). detached r = None \<and> fetch_ttl r = ttl"
      using s1 Cons by auto
    have a3: "\<forall>kf. (entries ?st kf \<noteq> None) = (kf \<in> set (called evs))"
      using s3 e kf by (metis (no_types, lifting) cache.select_convs(1) cache.surjective
          cache.update_convs(1,2,3) fun_upd_apply option.distinct(1))
    have a4: "\<forall>kf e. entries ?st kf = Some e \<longrightarrow>
        (state e = Pending \<and> kf \<in> fetch_slot ` set (outstanding ?st)) \<or>
        (state e = Ready \<and> t0 + ttl \<le> expires_at e)"
    proof (intro allI impI)
      fix kf' e' assume en: "entries ?st kf' = Some e'"
      show "(state e' = Pending \<and> kf' \<in> fetch_slot ` set (outstanding ?st)) \<or>
        (state e' = Ready \<and> t0 + ttl \<le> expires_at e')"
      proof (cases "kf' = ?kf")
        case True
        then have "e' = ?new" using en by simp
        then show ?thesis using deadline_steady [OF t0 hint] by simp
      next
        case False
        then have "entries st kf' = Some e'" using en by simp
        from s4 [OF this] show ?thesis using False Cons kf by auto
      qed
    qed
    have a5: "misses ?st + length (outstanding ?st) = card (set (called evs))"
      using s5 m Cons by simp
    have a6: "hits ?st + misses ?st + length (outstanding ?st) + waiting ?st =
        length (called evs)"
      using s6 m h w Cons by simp
    show ?thesis
      unfolding sr cl steady_inv_def using a1 a3 a4 a5 a6 by blast
  qed
qed

lemma cache_run_snoc: "cache_run (evs @ [e]) = cache_step (cache_run evs) e"
  by (simp add: cache_run_def)

lemma steady_run:
  "\<forall>e \<in> set evs. steady t0 ttl e \<Longrightarrow> steady_inv t0 ttl evs (cache_run evs)"
proof (induction evs rule: rev_induct)
  case Nil
  then show ?case by (simp add: cache_run_def steady_inv_init)
next
  case (snoc e evs)
  have ci: "cache_inv (cache_run evs)"
    unfolding cache_run_def by (rule foldl_cache_inv [OF cache_inv_init])
  have si: "steady_inv t0 ttl evs (cache_run evs)" using snoc by simp
  have se: "steady t0 ttl e" using snoc.prems by simp
  show ?case
  proof (cases e)
    case (DoCache c k f ttl1 now)
    then show ?thesis
      using se steady_do_cache [OF ci si, of now c k f] by (simp add: cache_run_snoc)
  next
    case (ServerReply msg hint now)
    then show ?thesis
      using se steady_server_reply [OF ci si, of now hint msg] by (simp add: cache_run_snoc)
  next
    case (ServerError err)
    then show ?thesis using se by simp
  next
    case (Invalidate keys)
    then show ?thesis using se by simp
  qed
qed














text \<open>
  The check of \<^verbatim>\<open>testSETGET\<close> on such a run, with its own numbers: when the 100000 calls
  cover the 100 keys of the range, the test does not fail.
\<close>

lemma testSETGET_csc_passes:
  assumes "\<forall>e \<in> set evs. steady t0 ttl e" and "outstanding (cache_run evs) = []"
    and "length (called evs) = testSETGET_csc_calls"
    and "card (set (called evs)) = testSETGET_csc_range"
  shows "\<not> testSETGET_csc_fails (misses (cache_run evs)) (hits (cache_run evs))"
proof -
  have si: "steady_inv t0 ttl evs (cache_run evs)"
    by (rule steady_run [OF assms(1)])
  have w: "waiting (cache_run evs) = 0"
    using assms(2) by (simp add: waiting_def)
  have "misses (cache_run evs) = 100 \<and> hits (cache_run evs) + 100 = 100000"
    using si assms(2,3,4) w unfolding steady_inv_def
    by (simp add: testSETGET_csc_calls_def testSETGET_csc_range_def testSETGET_keys_def)
  then show ?thesis
    by (simp add: testSETGET_csc_fails_def testSETGET_keys_def)
qed

subsection \<open>After a flush\<close>

lemma length_called: "length (called evs) = length (callers evs)"
  by (induction evs rule: called.induct) simp_all

lemma flush_inv_start:
  assumes "outstanding st = []"
  shows "flush_inv st [] (invalidate None st)"
  using assms by (simp add: flush_inv_def invalidate_def invalidated_key_def)

lemma flush_do_cache:
  assumes fi: "flush_inv st0 evs st" and new: "(k, f) \<notin> set (called evs)"
  shows "flush_inv st0 (evs @ [DoCache c k f ttl now]) (do_cache c k f ttl now st)"
proof -
  from fi have f1: "\<forall>r \<in> set (outstanding st).
        detached r = None \<and> entries st (fetch_slot r) = Some fresh_entry"
    and f2: "\<And>kf. (entries st kf \<noteq> None) = (kf \<in> set (called evs))"
    unfolding flush_inv_def by blast+
  from fi obtain n where n: "n \<le> length (callers evs)"
    and n1: "map issuer (outstanding st) = drop n (callers evs)"
    and n2: "map fetch_slot (outstanding st) = drop n (called evs)"
    and n3: "returned st = returned st0 @ map (\<lambda>c. (c, Result Null False)) (take n (callers evs))"
    unfolding flush_inv_def by blast
  have none: "entries st (k, f) = None" using f2 [of "(k, f)"] new by simp
  let ?r = "\<lparr>fetch_key = k, fetch_fp = f, issuer = c, fetch_ttl = ttl, detached = None\<rparr>"
  let ?st = "st\<lparr>entries := (entries st)((k, f) \<mapsto> fresh_entry), outstanding := outstanding st @ [?r]\<rparr>"
  have dc: "do_cache c k f ttl now st = ?st"
    using none by (simp add: do_cache_def issue_def fresh_entry_def)
  have cl: "called (evs @ [DoCache c k f ttl now]) = called evs @ [(k, f)]"
    and cr: "callers (evs @ [DoCache c k f ttl now]) = callers evs @ [c]"
    by (simp_all add: called_append callers_append)
  have n': "n \<le> length (called evs)" using n by (simp add: length_called)
  have a1: "\<forall>r \<in> set (outstanding ?st).
        detached r = None \<and> entries ?st (fetch_slot r) = Some fresh_entry"
    using f1 none by (auto simp: fetch_slot_def)
  have a2: "\<forall>kf. (entries ?st kf \<noteq> None) = (kf \<in> set (called evs @ [(k, f)]))"
    using f2 by auto
  have a3: "n \<le> length (callers evs @ [c]) \<and>
        map issuer (outstanding ?st) = drop n (callers evs @ [c]) \<and>
        map fetch_slot (outstanding ?st) = drop n (called evs @ [(k, f)]) \<and>
        returned ?st = returned st0 @ map (\<lambda>c. (c, Result Null False)) (take n (callers evs @ [c]))"
    using n n' n1 n2 n3 by (simp add: fetch_slot_def)
  show ?thesis
    unfolding dc cl cr flush_inv_def using a1 a2 a3 by blast
qed

lemma flush_server_reply:
  assumes fi: "flush_inv st0 evs st" and dist: "distinct (called evs)"
  shows "flush_inv st0 (evs @ [ServerReply Null hint now]) (server_reply Null hint now st)"
proof -
  from fi have f1: "\<forall>r \<in> set (outstanding st).
        detached r = None \<and> entries st (fetch_slot r) = Some fresh_entry"
    and f2: "\<And>kf. (entries st kf \<noteq> None) = (kf \<in> set (called evs))"
    unfolding flush_inv_def by blast+
  from fi obtain n where n: "n \<le> length (callers evs)"
    and n1: "map issuer (outstanding st) = drop n (callers evs)"
    and n2: "map fetch_slot (outstanding st) = drop n (called evs)"
    and n3: "returned st = returned st0 @ map (\<lambda>c. (c, Result Null False)) (take n (callers evs))"
    unfolding flush_inv_def by blast
  have cl: "called (evs @ [ServerReply Null hint now]) = called evs"
    and cr: "callers (evs @ [ServerReply Null hint now]) = callers evs"
    by (simp_all add: called_append callers_append)
  show ?thesis
  proof (cases "outstanding st")
    case Nil
    then have "server_reply Null hint now st = st" by (simp add: server_reply_def)
    then show ?thesis using fi unfolding flush_inv_def cl cr by simp
  next
    case (Cons r rest)
    have dr: "detached r = None" and er: "entries st (fetch_slot r) = Some fresh_entry"
      using f1 Cons by auto
    let ?kf = "(fetch_key r, fetch_fp r)"
    let ?new = "\<lparr>state = Ready, cached = Null,
        expires_at = deadline now (fetch_ttl r) hint, waiters = []\<rparr>"
    let ?st = "st\<lparr>entries := (entries st)(?kf \<mapsto> ?new), outstanding := rest,
        returned := returned st @ [(issuer r, Result Null False)]\<rparr>"
    have kf: "fetch_slot r = ?kf" by (simp add: fetch_slot_def)
    have sr: "server_reply Null hint now st = ?st"
      using Cons dr er kf by (simp add: server_reply_def fresh_entry_def)
    have lt: "n < length (callers evs)"
      using n1 Cons n by (cases "n = length (callers evs)") auto
    have hd1: "callers evs ! n = issuer r" and tl1: "map issuer rest = drop (Suc n) (callers evs)"
      using n1 Cons lt by (simp_all add: Cons_nth_drop_Suc [symmetric])
    have lt': "n < length (called evs)" using lt by (simp add: length_called)
    have hd2: "called evs ! n = fetch_slot r"
      and tl2: "map fetch_slot rest = drop (Suc n) (called evs)"
      using n2 Cons lt' by (simp_all add: Cons_nth_drop_Suc [symmetric])
    have "distinct (drop n (called evs))" using dist by simp
    then have "distinct (fetch_slot r # map fetch_slot rest)"
      using n2 Cons by simp
    then have notin: "?kf \<notin> fetch_slot ` set rest" using kf by simp
    have a1: "\<forall>x \<in> set (outstanding ?st).
        detached x = None \<and> entries ?st (fetch_slot x) = Some fresh_entry"
    proof
      fix x assume x: "x \<in> set (outstanding ?st)"
      then have "fetch_slot x \<noteq> ?kf" using notin by force
      then show "detached x = None \<and> entries ?st (fetch_slot x) = Some fresh_entry"
        using f1 Cons x by simp
    qed
    have a2: "\<forall>kf. (entries ?st kf \<noteq> None) = (kf \<in> set (called evs))"
      using f2 er kf by (metis (no_types, lifting) cache.select_convs(1) cache.surjective
          cache.update_convs(1,2,3) fun_upd_apply option.distinct(1))
    have a3: "Suc n \<le> length (callers evs) \<and>
        map issuer (outstanding ?st) = drop (Suc n) (callers evs) \<and>
        map fetch_slot (outstanding ?st) = drop (Suc n) (called evs) \<and>
        returned ?st =
          returned st0 @ map (\<lambda>c. (c, Result Null False)) (take (Suc n) (callers evs))"
      using lt tl1 tl2 n3 hd1 by (simp add: take_Suc_conv_app_nth)
    show ?thesis
      unfolding sr cl cr flush_inv_def using a1 a2 a3 by blast
  qed
qed

lemma flush_run:
  assumes "outstanding st = []"
  shows "\<forall>e \<in> set evs. after_flush e \<Longrightarrow> distinct (called evs) \<Longrightarrow>
     flush_inv st evs (foldl cache_step (invalidate None st) evs)"
proof (induction evs rule: rev_induct)
  case Nil
  then show ?case using flush_inv_start [OF assms] by simp
next
  case (snoc e evs)
  have d: "distinct (called evs)" using snoc.prems(2) by (simp add: called_append)
  have fi: "flush_inv st evs (foldl cache_step (invalidate None st) evs)"
    using snoc d by simp
  have ae: "after_flush e" using snoc.prems(1) by simp
  show ?case
  proof (cases e)
    case (DoCache c k f ttl now)
    then have "(k, f) \<notin> set (called evs)"
      using snoc.prems(2) by (simp add: called_append)
    then show ?thesis
      using flush_do_cache [OF fi] DoCache by simp
  next
    case (ServerReply msg hint now)
    then show ?thesis
      using ae flush_server_reply [OF fi d] by simp
  next
    case (ServerError err)
    then show ?thesis using ae by simp
  next
    case (Invalidate keys)
    then show ?thesis using ae by simp
  qed
qed

text \<open>
  C4. Once the flush (the invalidation push with a null payload) has been processed
  with no fetch in flight, the next \<^verbatim>\<open>DoCache\<close> for each key, previously cached or not,
  whose fetch the server answers with null, returns the null reply with
  \<^verbatim>\<open>cache_hit=false\<close>, in any interleaving of the calls and replies: every response is
  such a one, in the order of the calls, and when no fetch is left in flight every caller
  has its response. No value cached before the flush is served.
\<close>

theorem flush_then_miss:
  assumes "outstanding st = []" and "\<forall>e \<in> set evs. after_flush e" and "distinct (called evs)"
  shows "(\<exists>n. returned (foldl cache_step st (Invalidate None # evs)) =
            returned st @ map (\<lambda>c. (c, Result Null False)) (take n (callers evs))) \<and>
         (outstanding (foldl cache_step st (Invalidate None # evs)) = [] \<longrightarrow>
            returned (foldl cache_step st (Invalidate None # evs)) =
              returned st @ map (\<lambda>c. (c, Result Null False)) (callers evs))"
proof -
  let ?st = "foldl cache_step st (Invalidate None # evs)"
  have fi: "flush_inv st evs ?st"
    using flush_run [OF assms] by simp
  then obtain n where n: "n \<le> length (callers evs)"
    and n1: "map issuer (outstanding ?st) = drop n (callers evs)"
    and n3: "returned ?st = returned st @ map (\<lambda>c. (c, Result Null False)) (take n (callers evs))"
    unfolding flush_inv_def by blast
  have "n = length (callers evs)" if "outstanding ?st = []"
    using n1 n that by simp
  then show ?thesis using n3 by auto
qed

theorem flush_then_miss_witness:
  "outstanding warm_cache = [] \<and> list_all after_flush flushed_trace \<and>
   distinct (called flushed_trace) \<and>
   outstanding (foldl cache_step warm_cache (Invalidate None # flushed_trace)) = [] \<and>
   returned (foldl cache_step warm_cache (Invalidate None # flushed_trace)) =
     returned warm_cache @ map (\<lambda>c. (c, Result Null False)) (callers flushed_trace)"
proof -
  have w: "warm_cache = \<lparr>entries = [(''0'', 1) \<mapsto> \<lparr>state = Ready, cached = BlobString ''v'',
        expires_at = 60001, waiters = []\<rparr>], outstanding = [],
        returned = [(1, Result (BlobString ''v'') False)]\<rparr>"
    by (simp add: warm_cache_def cache_run_def init_cache_def do_cache_def issue_def
        server_reply_def deadline_def)
  have h1: "outstanding warm_cache = []"
    by (simp add: w)
  have h2: "\<forall>e \<in> set flushed_trace. after_flush e"
    by (simp add: flushed_trace_def)
  have h3: "distinct (called flushed_trace)"
    by (simp add: flushed_trace_def)
  have q: "outstanding (foldl cache_step warm_cache (Invalidate None # flushed_trace)) = []"
    unfolding w
    by (simp add: flushed_trace_def invalidate_def invalidated_key_def do_cache_def issue_def
        server_reply_def deadline_def)
  show ?thesis
    using h1 h2 h3 q flush_then_miss [OF h1 h2 h3] by (simp add: list_all_iff)
qed

end
